theory Spec2Isabelle
  imports Complex_Main
begin

section \<open>Data model\<close>

text \<open>
  Embedding of \<^verbatim>\<open>models/qtable.py\<close> (class \<^verbatim>\<open>QTableModel\<close>) and
  \<^verbatim>\<open>models/qtable_trace.py\<close> (class \<^verbatim>\<open>QTableTraceModel\<close>).

  A state is the tuple \<^verbatim>\<open>tuple(state.flatten())\<close> used as dictionary key; the array
  the environment hands out is a list of rows. Python floats are idealised as
  \<^typ>\<open>real\<close>: the arithmetic expressions are those of the source, rounding is not
  modelled. An action is the integer the environment enumerates; \<^verbatim>\<open>predict\<close> returns
  a position of \<^verbatim>\<open>environment.actions\<close> (an index delivered by \<^verbatim>\<open>np.nonzero\<close>),
  so both are natural numbers here.
\<close>

type_synonym state = "int list"
type_synonym ndarray = "int list list"
type_synonym action = nat
type_synonym cell = "int \<times> int"
type_synonym qtable = "(state \<times> action) \<rightharpoonup> real"

text \<open>
  Modelled from the spec: the enumeration \<^verbatim>\<open>environment.Status\<close> is imported by both
  files but declared outside them; the spec gives it two terminal variants and one
  continuation variant.
\<close>

datatype Status = WIN | LOSE | PLAYING

datatype error = KeyError | IndexError | ValueError | ZeroDivisionError

text \<open>
  Modelled from the spec: the environment collaborator and the process-wide random
  source. Both live outside the two files; they are taken as parameters acting on an
  outside world \<^typ>\<open>'w\<close>. The hooks \<^verbatim>\<open>check_win_all\<close> and \<^verbatim>\<open>render_q\<close> receive the
  model and, by the spec, do not mutate it, so they read the table and change the world
  only. \<^verbatim>\<open>np_random\<close> is \<^verbatim>\<open>np.random.random()\<close>; \<^verbatim>\<open>randbelow n\<close> is the index
  that \<^verbatim>\<open>random.choice\<close> draws for a sequence of length \<^verbatim>\<open>n\<close>.
\<close>

record 'w environment =
  actions :: "action list"
  empty :: "cell list"
  reset :: "cell \<Rightarrow> 'w \<Rightarrow> ndarray \<times> 'w"
  step :: "action \<Rightarrow> 'w \<Rightarrow> (ndarray \<times> real \<times> Status) \<times> 'w"
  check_win_all :: "qtable \<Rightarrow> 'w \<Rightarrow> (bool \<times> real) \<times> 'w"
  render_q :: "qtable \<Rightarrow> 'w \<Rightarrow> 'w"
  np_random :: "'w \<Rightarrow> real \<times> 'w"
  randbelow :: "nat \<Rightarrow> 'w \<Rightarrow> nat \<times> 'w"

text \<open>\<^verbatim>\<open>state.flatten()\<close> followed by \<^verbatim>\<open>tuple\<close>.\<close>

definition flatten :: "ndarray \<Rightarrow> state" where
  "flatten arr = concat arr"

text \<open>The argument of \<^verbatim>\<open>q\<close> and \<^verbatim>\<open>predict\<close> is an array or an already flattened tuple.\<close>

datatype observation = NdArray ndarray | Tuple state

fun as_tuple :: "observation \<Rightarrow> state" where
  "as_tuple (NdArray arr) = flatten arr"
| "as_tuple (Tuple t) = t"

text \<open>\<^verbatim>\<open>d.get(k, default)\<close>.\<close>

definition dict_get :: "('k \<rightharpoonup> 'v) \<Rightarrow> 'k \<Rightarrow> 'v \<Rightarrow> 'v" where
  "dict_get d k dflt = (case d k of None \<Rightarrow> dflt | Some v \<Rightarrow> v)"

text \<open>Python's \<^verbatim>\<open>max(list)\<close> and \<^verbatim>\<open>np.max(array)\<close>: both raise ValueError on no elements.\<close>

fun py_max :: "real list \<Rightarrow> error + real" where
  "py_max [] = Inl ValueError"
| "py_max (x # xs) = Inr (fold max xs x)"

definition np_max :: "real list \<Rightarrow> error + real" where
  "np_max xs = py_max xs"

text \<open>
  \<^verbatim>\<open>random.choice(seq)\<close>: IndexError on an empty sequence, otherwise the element at the
  index the random source draws below \<^verbatim>\<open>len(seq)\<close>.
\<close>

definition random_choice :: "'w environment \<Rightarrow> 'a list \<Rightarrow> 'w \<Rightarrow> error + ('a \<times> 'w)" where
  "random_choice env seq w =
     (if seq = [] then Inl IndexError
      else (case randbelow env (length seq) w of
              (r, w') \<Rightarrow> Inr (seq ! (r mod length seq), w')))"

section \<open>Shared policy query\<close>

text \<open>\<^verbatim>\<open>q\<close> (qtable.py 129-135, qtable\_trace.py 135-140).\<close>

definition q :: "'w environment \<Rightarrow> qtable \<Rightarrow> observation \<Rightarrow> real list" where
  "q env Q st =
     (let state = as_tuple st
      in map (\<lambda>action. dict_get Q (state, action) 0) (actions env))"

text \<open>
  \<^verbatim>\<open>np.nonzero(q == np.max(q))[0]\<close>: the positions, in increasing order, whose entry
  equals the maximum.
\<close>

definition argmax_positions :: "real list \<Rightarrow> real \<Rightarrow> nat list" where
  "argmax_positions qv m = filter (\<lambda>i. qv ! i = m) [0..<length qv]"

text \<open>\<^verbatim>\<open>predict\<close> (qtable.py 137-150, qtable\_trace.py 142-154).\<close>

definition predict :: "'w environment \<Rightarrow> qtable \<Rightarrow> observation \<Rightarrow> 'w \<Rightarrow> error + (action \<times> 'w)" where
  "predict env Q st w =
     (let qv = q env Q st
      in case np_max qv of
           Inl e \<Rightarrow> Inl e
         | Inr m \<Rightarrow> random_choice env (argmax_positions qv m) w)"

section \<open>One-step Q-learning update\<close>

text \<open>qtable.py 86-88 and qtable\_trace.py 93-94: make sure the pair has a value.\<close>

definition ensure_key :: "qtable \<Rightarrow> state \<times> action \<Rightarrow> qtable" where
  "ensure_key Q k = (if k \<notin> dom Q then Q(k \<mapsto> 0) else Q)"

text \<open>qtable.py 91-92 and qtable\_trace.py 96.\<close>

definition max_next_Q :: "'w environment \<Rightarrow> qtable \<Rightarrow> state \<Rightarrow> error + real" where
  "max_next_Q env Q next_state = py_max (map (\<lambda>a. dict_get Q (next_state, a) 0) (actions env))"

text \<open>qtable.py 86-94: the update of the table after a transition.\<close>

definition td_update ::
  "'w environment \<Rightarrow> real \<Rightarrow> real \<Rightarrow> qtable \<Rightarrow> state \<Rightarrow> action \<Rightarrow> state \<Rightarrow> real \<Rightarrow> error + qtable" where
  "td_update env discount learning_rate Q state action next_state reward =
     (let Q1 = ensure_key Q (state, action)
      in case max_next_Q env Q1 next_state of
           Inl e \<Rightarrow> Inl e
         | Inr m \<Rightarrow>
             (case Q1 (state, action) of
                None \<Rightarrow> Inl KeyError
              | Some old \<Rightarrow>
                  Inr (Q1((state, action) \<mapsto> old + learning_rate * (reward + discount * m - old)))))"

text \<open>
  qtable.py 76-79 and qtable\_trace.py 78-81: epsilon-greedy choice of the action. The
  state is already a tuple here.
\<close>

definition choose_action ::
  "'w environment \<Rightarrow> qtable \<Rightarrow> real \<Rightarrow> state \<Rightarrow> 'w \<Rightarrow> error + (action \<times> 'w)" where
  "choose_action env Q exploration_rate state w =
     (case np_random env w of
        (u, w1) \<Rightarrow>
          if u < exploration_rate then random_choice env (actions env) w1
          else predict env Q (Tuple state) w1)"

text \<open>
  qtable.py 73-102: the \<^verbatim>\<open>while True\<close> loop of one episode. The loop ends only
  when the environment reports WIN or LOSE, so it is given fuel: \<^const>\<open>None\<close> is a loop
  still running when the fuel is spent. The result is the table, the cumulative reward
  and the world at the \<^verbatim>\<open>break\<close>.
\<close>

fun play_episode ::
  "nat \<Rightarrow> 'w environment \<Rightarrow> real \<Rightarrow> real \<Rightarrow> qtable \<Rightarrow> real \<Rightarrow> state \<Rightarrow> real \<Rightarrow> 'w
   \<Rightarrow> (error + (qtable \<times> real \<times> 'w)) option" where
  "play_episode 0 env discount learning_rate Q exploration_rate state cumulative_reward w = None"
| "play_episode (Suc fuel) env discount learning_rate Q exploration_rate state cumulative_reward w =
     (case choose_action env Q exploration_rate state w of
        Inl e \<Rightarrow> Some (Inl e)
      | Inr (action, w1) \<Rightarrow>
          (case step env action w1 of
             ((next_arr, reward, status), w2) \<Rightarrow>
               (case td_update env discount learning_rate Q state action (flatten next_arr) reward of
                  Inl e \<Rightarrow> Some (Inl e)
                | Inr Q' \<Rightarrow>
                    if status = WIN \<or> status = LOSE
                    then Some (Inr (Q', cumulative_reward + reward, w2))
                    else play_episode fuel env discount learning_rate Q' exploration_rate
                           (flatten next_arr) (cumulative_reward + reward) (render_q env Q' w2))))"

section \<open>Q-learning with eligibility trace\<close>

text \<open>
  The trace is a Python dict that is iterated, so it is an association list in insertion
  order. \<^verbatim>\<open>d[k] = v\<close> overwrites in place or appends.
\<close>

type_synonym etrace = "((state \<times> action) \<times> real) list"

fun dict_set :: "('k \<times> 'v) list \<Rightarrow> 'k \<Rightarrow> 'v \<Rightarrow> ('k \<times> 'v) list" where
  "dict_set [] k v = [(k, v)]"
| "dict_set ((k', v') # d) k v = (if k' = k then (k, v) # d else (k', v') # dict_set d k v)"

text \<open>qtable\_trace.py 83-86: \<^verbatim>\<open>try: etrace[k] += 1 except KeyError: etrace[k] = 1\<close>.\<close>

definition etrace_visit :: "etrace \<Rightarrow> state \<times> action \<Rightarrow> etrace" where
  "etrace_visit etrace k =
     (case map_of etrace k of
        Some v \<Rightarrow> dict_set etrace k (v + 1)
      | None \<Rightarrow> dict_set etrace k 1)"

text \<open>
  qtable\_trace.py 101-102: \<^verbatim>\<open>for key in etrace.keys(): Q[key] += learning_rate * delta * etrace[key]\<close>.
  The subscript \<^verbatim>\<open>Q[key]\<close> raises KeyError on a key the table lacks.
\<close>

fun update_trace_Q ::
  "(state \<times> action) list \<Rightarrow> etrace \<Rightarrow> real \<Rightarrow> real \<Rightarrow> qtable \<Rightarrow> error + qtable" where
  "update_trace_Q [] etrace learning_rate delta Q = Inr Q"
| "update_trace_Q (key # keys) etrace learning_rate delta Q =
     (case Q key of
        None \<Rightarrow> Inl KeyError
      | Some v \<Rightarrow>
          (case map_of etrace key of
             None \<Rightarrow> Inl KeyError
           | Some e \<Rightarrow>
               update_trace_Q keys etrace learning_rate delta
                 (Q(key \<mapsto> v + learning_rate * delta * e))))"

text \<open>qtable\_trace.py 105-106: \<^verbatim>\<open>for key in etrace.keys(): etrace[key] *= (discount * eligibility_decay)\<close>.\<close>

definition decay_trace :: "etrace \<Rightarrow> real \<Rightarrow> real \<Rightarrow> etrace" where
  "decay_trace etrace discount eligibility_decay =
     map (\<lambda>(key, v). (key, v * (discount * eligibility_decay))) etrace"

text \<open>
  qtable\_trace.py 93-106: what one step does to the table and the trace once the trace
  holds the chosen pair and the environment has answered.
\<close>

definition trace_update ::
  "'w environment \<Rightarrow> real \<Rightarrow> real \<Rightarrow> real \<Rightarrow> qtable \<Rightarrow> etrace \<Rightarrow> state \<Rightarrow> action \<Rightarrow> state \<Rightarrow> real
   \<Rightarrow> error + (qtable \<times> etrace)" where
  "trace_update env discount learning_rate eligibility_decay Q etrace state action next_state reward =
     (let Q1 = ensure_key Q (state, action)
      in case max_next_Q env Q1 next_state of
           Inl e \<Rightarrow> Inl e
         | Inr m \<Rightarrow>
             (case Q1 (state, action) of
                None \<Rightarrow> Inl KeyError
              | Some cur \<Rightarrow>
                  (let delta = reward + discount * m - cur
                   in case update_trace_Q (map fst etrace) etrace learning_rate delta Q1 of
                        Inl e \<Rightarrow> Inl e
                      | Inr Q' \<Rightarrow> Inr (Q', decay_trace etrace discount eligibility_decay))))"

text \<open>qtable\_trace.py 77-113: the \<^verbatim>\<open>while True\<close> loop of one episode, with fuel as above.\<close>

fun trace_episode ::
  "nat \<Rightarrow> 'w environment \<Rightarrow> real \<Rightarrow> real \<Rightarrow> real \<Rightarrow> etrace \<Rightarrow> qtable \<Rightarrow> real \<Rightarrow> state \<Rightarrow> real \<Rightarrow> 'w
   \<Rightarrow> (error + (qtable \<times> real \<times> 'w)) option" where
  "trace_episode 0 env discount learning_rate eligibility_decay etrace Q exploration_rate state
     cumulative_reward w = None"
| "trace_episode (Suc fuel) env discount learning_rate eligibility_decay etrace Q exploration_rate state
     cumulative_reward w =
     (case choose_action env Q exploration_rate state w of
        Inl e \<Rightarrow> Some (Inl e)
      | Inr (action, w1) \<Rightarrow>
          (case step env action w1 of
             ((next_arr, reward, status), w2) \<Rightarrow>
               (case trace_update env discount learning_rate eligibility_decay Q
                       (etrace_visit etrace (state, action)) state action (flatten next_arr) reward of
                  Inl e \<Rightarrow> Some (Inl e)
                | Inr (Q', etrace') \<Rightarrow>
                    if status = WIN \<or> status = LOSE
                    then Some (Inr (Q', cumulative_reward + reward, w2))
                    else trace_episode fuel env discount learning_rate eligibility_decay etrace' Q'
                           exploration_rate (flatten next_arr) (cumulative_reward + reward)
                           (render_q env Q' w2))))"

section \<open>The training loop\<close>

text \<open>
  The keyword arguments of \<^verbatim>\<open>train\<close>; a key that the caller leaves out is
  \<^const>\<open>None\<close> and \<^verbatim>\<open>kwargs.get\<close> supplies the default.
\<close>

record kwargs =
  kw_discount :: "real option"
  kw_exploration_rate :: "real option"
  kw_exploration_decay :: "real option"
  kw_learning_rate :: "real option"
  kw_eligibility_decay :: "real option"
  kw_episodes :: "int option"
  kw_check_convergence_every :: "int option"

definition kwargs_get :: "'a option \<Rightarrow> 'a \<Rightarrow> 'a" where
  "kwargs_get v dflt = (case v of None \<Rightarrow> dflt | Some x \<Rightarrow> x)"

definition default_check_convergence_every :: int where
  "default_check_convergence_every = 5"

text \<open>
  The variables of \<^verbatim>\<open>train\<close> that live across episodes, with the table and the
  outside world.
\<close>

record 'w train_state =
  ts_Q :: qtable
  ts_cumulative_reward :: real
  ts_cumulative_reward_history :: "real list"
  ts_win_history :: "(int \<times> real) list"
  ts_start_list :: "cell list"
  ts_exploration_rate :: real
  ts_episode :: int
  ts_world :: 'w

text \<open>
  The two \<^verbatim>\<open>train\<close> methods differ in the inner loop only, which is a parameter
  here: it maps table, exploration rate, start state, cumulative reward and world to the
  outcome of the episode.
\<close>

type_synonym 'w player =
  "qtable \<Rightarrow> real \<Rightarrow> state \<Rightarrow> real \<Rightarrow> 'w \<Rightarrow> (error + (qtable \<times> real \<times> 'w)) option"

text \<open>
  qtable.py 63-118 and qtable\_trace.py 66-129: the body of the \<^verbatim>\<open>for\<close> loop. The
  boolean of the result is whether the body left the loop by \<^verbatim>\<open>break\<close>.
\<close>

definition run_episode ::
  "'w environment \<Rightarrow> 'w player \<Rightarrow> bool \<Rightarrow> real \<Rightarrow> int \<Rightarrow> int \<Rightarrow> 'w train_state
   \<Rightarrow> (error + (bool \<times> 'w train_state)) option" where
  "run_episode env play stop_at_convergence exploration_decay check_convergence_every episode ts =
     (let start_list = (if ts_start_list ts = [] then empty env else ts_start_list ts)
      in case random_choice env start_list (ts_world ts) of
           Inl e \<Rightarrow> Some (Inl e)
         | Inr (start_cell, w1) \<Rightarrow>
             (case reset env start_cell w1 of
                (arr, w2) \<Rightarrow>
                  (case play (ts_Q ts) (ts_exploration_rate ts) (flatten arr)
                          (ts_cumulative_reward ts) w2 of
                     None \<Rightarrow> None
                   | Some (Inl e) \<Rightarrow> Some (Inl e)
                   | Some (Inr (Q', cumulative_reward, w3)) \<Rightarrow>
                       (let ts1 = ts\<lparr>ts_Q := Q',
                                     ts_cumulative_reward := cumulative_reward,
                                     ts_cumulative_reward_history :=
                                       ts_cumulative_reward_history ts @ [cumulative_reward],
                                     ts_start_list := remove1 start_cell start_list,
                                     ts_episode := episode,
                                     ts_world := w3\<rparr>
                        in if check_convergence_every = 0 then Some (Inl ZeroDivisionError)
                           else if episode mod check_convergence_every = 0
                           then (case check_win_all env Q' w3 of
                                   ((w_all, win_rate), w4) \<Rightarrow>
                                     (let ts2 = ts1\<lparr>ts_win_history :=
                                                      ts_win_history ts @ [(episode, win_rate)],
                                                    ts_world := w4\<rparr>
                                      in if w_all \<and> stop_at_convergence
                                         then Some (Inr (True, ts2))
                                         else Some (Inr (False,
                                                ts2\<lparr>ts_exploration_rate :=
                                                      ts_exploration_rate ts * exploration_decay\<rparr>))))
                           else Some (Inr (False,
                                  ts1\<lparr>ts_exploration_rate :=
                                        ts_exploration_rate ts * exploration_decay\<rparr>))))))"

text \<open>qtable.py 62 and qtable\_trace.py 65: \<^verbatim>\<open>for episode in range(1, episodes + 1)\<close>.\<close>

fun for_episodes ::
  "'w environment \<Rightarrow> 'w player \<Rightarrow> bool \<Rightarrow> real \<Rightarrow> int \<Rightarrow> int list \<Rightarrow> 'w train_state
   \<Rightarrow> (error + 'w train_state) option" where
  "for_episodes env play stop_at_convergence exploration_decay check_convergence_every [] ts =
     Some (Inr ts)"
| "for_episodes env play stop_at_convergence exploration_decay check_convergence_every
     (episode # rest) ts =
     (case run_episode env play stop_at_convergence exploration_decay check_convergence_every
             episode ts of
        None \<Rightarrow> None
      | Some (Inl e) \<Rightarrow> Some (Inl e)
      | Some (Inr (break, ts')) \<Rightarrow>
          if break then Some (Inr ts')
          else for_episodes env play stop_at_convergence exploration_decay
                 check_convergence_every rest ts')"

text \<open>
  qtable.py 43-62 and 120-127, qtable\_trace.py 48-65 and 131-133: the hyperparameters,
  the loop and the returned tuple (reward history, win history, last episode number;
  the elapsed time is left out), followed by the table and the world the call leaves
  behind. The variable \<^verbatim>\<open>episode\<close> has no value before the loop; the loop runs at
  least once and sets it.
\<close>

definition train_loop ::
  "'w environment \<Rightarrow> 'w player \<Rightarrow> bool \<Rightarrow> kwargs \<Rightarrow> qtable \<Rightarrow> 'w
   \<Rightarrow> (error + ((real list \<times> (int \<times> real) list \<times> int) \<times> qtable \<times> 'w)) option" where
  "train_loop env play stop_at_convergence kw Q w =
     (let exploration_rate = kwargs_get (kw_exploration_rate kw) (10 / 100);
          exploration_decay = kwargs_get (kw_exploration_decay kw) (995 / 1000);
          episodes = max (kwargs_get (kw_episodes kw) 1000) 1;
          check_convergence_every =
            kwargs_get (kw_check_convergence_every kw) default_check_convergence_every
      in case for_episodes env play stop_at_convergence exploration_decay check_convergence_every
                [1..episodes]
                \<lparr>ts_Q = Q, ts_cumulative_reward = 0, ts_cumulative_reward_history = [],
                 ts_win_history = [], ts_start_list = [],
                 ts_exploration_rate = exploration_rate, ts_episode = 0, ts_world = w\<rparr> of
           None \<Rightarrow> None
         | Some (Inl e) \<Rightarrow> Some (Inl e)
         | Some (Inr ts) \<Rightarrow>
             Some (Inr ((ts_cumulative_reward_history ts, ts_win_history ts, ts_episode ts),
                        ts_Q ts, ts_world ts)))"

text \<open>\<^verbatim>\<open>QTableModel.train\<close>.\<close>

definition train ::
  "nat \<Rightarrow> 'w environment \<Rightarrow> bool \<Rightarrow> kwargs \<Rightarrow> qtable \<Rightarrow> 'w
   \<Rightarrow> (error + ((real list \<times> (int \<times> real) list \<times> int) \<times> qtable \<times> 'w)) option" where
  "train fuel env stop_at_convergence kw Q w =
     (let discount = kwargs_get (kw_discount kw) (90 / 100);
          learning_rate = kwargs_get (kw_learning_rate kw) (10 / 100)
      in train_loop env (play_episode fuel env discount learning_rate) stop_at_convergence kw Q w)"

text \<open>\<^verbatim>\<open>QTableTraceModel.train\<close>; \<^verbatim>\<open>etrace = dict()\<close> at the start of every episode.\<close>

definition trace_train ::
  "nat \<Rightarrow> 'w environment \<Rightarrow> bool \<Rightarrow> kwargs \<Rightarrow> qtable \<Rightarrow> 'w
   \<Rightarrow> (error + ((real list \<times> (int \<times> real) list \<times> int) \<times> qtable \<times> 'w)) option" where
  "trace_train fuel env stop_at_convergence kw Q w =
     (let discount = kwargs_get (kw_discount kw) (90 / 100);
          learning_rate = kwargs_get (kw_learning_rate kw) (10 / 100);
          eligibility_decay = kwargs_get (kw_eligibility_decay kw) (80 / 100)
      in train_loop env (trace_episode fuel env discount learning_rate eligibility_decay [])
           stop_at_convergence kw Q w)"

section \<open>Observing the calls into the environment\<close>

text \<open>
  To count what \<^verbatim>\<open>train\<close> asks of its environment, any environment is wrapped into one
  that behaves alike on the inner world and keeps a tally beside it: the calls of
  \<^verbatim>\<open>reset\<close>, \<^verbatim>\<open>step\<close> and \<^verbatim>\<open>render_q\<close>, and the answers of \<^verbatim>\<open>check_win_all\<close>.
\<close>

record 'w observed =
  inner :: 'w
  reset_calls :: nat
  step_calls :: nat
  render_calls :: nat
  check_log :: "(bool \<times> real) list"

definition observe :: "'w environment \<Rightarrow> 'w observed environment" where
  "observe env =
     \<lparr>actions = actions env,
      empty = empty env,
      reset = (\<lambda>c ob. case reset env c (inner ob) of
                 (arr, w) \<Rightarrow> (arr, ob\<lparr>inner := w, reset_calls := Suc (reset_calls ob)\<rparr>)),
      step = (\<lambda>a ob. case step env a (inner ob) of
                 (r, w) \<Rightarrow> (r, ob\<lparr>inner := w, step_calls := Suc (step_calls ob)\<rparr>)),
      check_win_all = (\<lambda>Q ob. case check_win_all env Q (inner ob) of
                 ((w_all, win_rate), w) \<Rightarrow>
                   ((w_all, win_rate), ob\<lparr>inner := w, check_log := check_log ob @ [(w_all, win_rate)]\<rparr>)),
      render_q = (\<lambda>Q ob. ob\<lparr>inner := render_q env Q (inner ob),
                            render_calls := Suc (render_calls ob)\<rparr>),
      np_random = (\<lambda>ob. case np_random env (inner ob) of (u, w) \<Rightarrow> (u, ob\<lparr>inner := w\<rparr>)),
      randbelow = (\<lambda>n ob. case randbelow env n (inner ob) of (r, w) \<Rightarrow> (r, ob\<lparr>inner := w\<rparr>))\<rparr>"

definition unobserved :: "'w \<Rightarrow> 'w observed" where
  "unobserved w = \<lparr>inner = w, reset_calls = 0, step_calls = 0, render_calls = 0, check_log = []\<rparr>"


section \<open>A corridor of three cells\<close>

text \<open>
  A small environment to run the model on: cells 0, 1 and 2 in a row, the exit at cell 2,
  action 0 moves towards the exit and action 1 away from it. The world is the position
  and the number of moves left; a game is lost when they are used up. The random source
  never explores and always draws index 0.
\<close>

type_synonym corridor = "int \<times> nat"

definition corridor_step :: "action \<Rightarrow> corridor \<Rightarrow> (ndarray \<times> real \<times> Status) \<times> corridor" where
  "corridor_step a w =
     (case w of
        (pos, left) \<Rightarrow>
          (let pos' = (if a = 0 then pos + 1 else max 0 (pos - 1))
           in (([[pos']],
                (if pos' = 2 then 1 else - (1 / 4)),
                (if pos' = 2 then WIN else if left \<le> 1 then LOSE else PLAYING)),
               (pos', left - 1))))"

definition corridor_env :: "corridor environment" where
  "corridor_env =
     \<lparr>actions = [0, 1],
      empty = [(0, 0), (1, 0)],
      reset = (\<lambda>c w. ([[fst c]], (fst c, 3))),
      step = corridor_step,
      check_win_all = (\<lambda>Q w. ((Q ([1], 0) \<noteq> None, if Q ([1], 0) \<noteq> None then 1 else 0), w)),
      render_q = (\<lambda>Q w. w),
      np_random = (\<lambda>w. (1, w)),
      randbelow = (\<lambda>n w. (0, w))\<rparr>"

definition no_kwargs :: kwargs where
  "no_kwargs =
     \<lparr>kw_discount = None, kw_exploration_rate = None, kw_exploration_decay = None,
      kw_learning_rate = None, kw_eligibility_decay = None, kw_episodes = None,
      kw_check_convergence_every = None\<rparr>"

section \<open>Properties of the policy query\<close>

lemma py_max_Max: "xs \<noteq> [] \<Longrightarrow> py_max xs = Inr (Max (set xs))"
  by (cases xs) (simp_all add: Max.set_eq_fold [symmetric] del: set_simps)

lemma length_q: "length (q env Q st) = length (actions env)"
  by (simp add: q_def)

lemma q_all_zero:
  "\<forall>a \<in> set (actions env). Q (as_tuple st, a) = None \<Longrightarrow>
   q env Q st = replicate (length (actions env)) 0"
  by (auto simp: q_def dict_get_def map_replicate_const [symmetric])



lemma argmax_positions_set:
  "set (argmax_positions qv m) = {i. i < length qv \<and> qv ! i = m}"
  by (auto simp: argmax_positions_def)

lemma argmax_positions_distinct: "distinct (argmax_positions qv m)"
  by (simp add: argmax_positions_def)

lemma argmax_positions_nonempty:
  assumes "qv \<noteq> []"
  shows "argmax_positions qv (Max (set qv)) \<noteq> []"
proof -
  have "Max (set qv) \<in> set qv"
    using assms by (intro Max_in) auto
  then obtain i where "i < length qv" "qv ! i = Max (set qv)"
    by (auto simp: in_set_conv_nth)
  then have "i \<in> set (argmax_positions qv (Max (set qv)))"
    by (simp add: argmax_positions_set)
  then show ?thesis by auto
qed

lemma argmax_positions_all: "argmax_positions (replicate n 0) 0 = [0..<n]"
  by (auto simp: argmax_positions_def intro: filter_True)

lemma predict_eq:
  assumes "actions env \<noteq> []"
    and "randbelow env (length (argmax_positions (q env Q st) (Max (set (q env Q st))))) w = (r, w')"
  shows "predict env Q st w =
           Inr (argmax_positions (q env Q st) (Max (set (q env Q st))) !
                  (r mod length (argmax_positions (q env Q st) (Max (set (q env Q st))))), w')"
proof -
  have ne: "q env Q st \<noteq> []"
    using assms(1) by (simp add: q_def)
  from argmax_positions_nonempty [OF ne] ne assms(2) show ?thesis
    by (simp add: predict_def Let_def np_max_def py_max_Max random_choice_def)
qed

lemma argmax_positions_sorted: "sorted (argmax_positions qv m)"
  by (simp add: argmax_positions_def sorted_wrt_filter)

lemma nth_q:
  "i < length (actions env) \<Longrightarrow> q env Q st ! i = dict_get Q (as_tuple st, actions env ! i) 0"
  by (simp add: q_def)

lemma q_ordinal_actions:
  assumes "actions env = [0..<length (actions env)]"
  shows "{i. i < length (actions env) \<and> q env Q st ! i = Max (set (q env Q st))} =
         {a \<in> set (actions env).
            dict_get Q (as_tuple st, a) 0 =
            Max ((\<lambda>a. dict_get Q (as_tuple st, a) 0) ` set (actions env))}"
proof -
  have s: "set (q env Q st) = (\<lambda>a. dict_get Q (as_tuple st, a) 0) ` set (actions env)"
    by (simp add: q_def)
  have n: "\<And>i. i < length (actions env) \<Longrightarrow> actions env ! i = i"
    by (subst assms) simp
  have m: "\<And>i. i \<in> set (actions env) \<longleftrightarrow> i < length (actions env)"
    by (subst assms) simp
  show ?thesis
    unfolding s by (auto simp: nth_q n m)
qed

text \<open>
  C4. With at least one action, \<^verbatim>\<open>predict(state)\<close> returns the element that the random
  source picks, by one index draw below the length, from the list \<open>cands\<close> of the
  positions of \<^verbatim>\<open>q(state)\<close> whose entry equals the maximum of \<^verbatim>\<open>q(state)\<close>, in
  increasing order: the draw \<open>r\<close> gives \<open>cands ! r\<close>. The list has every such position
  and no other, each at exactly one index, so that draws uniform below its length give
  each maximiser with the same probability. The comparison is equality of the values,
  with no tolerance. For a state without table entries the list holds every position. A
  position stands for the action at that place of the environment's action ordering;
  where the actions are their own ordinals, the list holds exactly the actions whose
  table value (0 if absent) is the greatest over all actions.
\<close>

theorem predict_among_maximisers:
  assumes "actions env \<noteq> []"
  shows "\<exists>cands r w'.
     cands = filter (\<lambda>i. q env Q st ! i = Max (set (q env Q st))) [0..<length (actions env)] \<and>
     randbelow env (length cands) w = (r, w') \<and>
     predict env Q st w = Inr (cands ! (r mod length cands), w') \<and>
     cands \<noteq> [] \<and> sorted cands \<and> distinct cands \<and>
     set cands = {i. i < length (actions env) \<and> q env Q st ! i = Max (set (q env Q st))} \<and>
     (\<forall>i \<in> set cands. \<exists>!k. k < length cands \<and> cands ! k = i) \<and>
     ((\<forall>a \<in> set (actions env). Q (as_tuple st, a) = None) \<longrightarrow> cands = [0..<length (actions env)]) \<and>
     (actions env = [0..<length (actions env)] \<longrightarrow>
        set cands = {a \<in> set (actions env).
                       dict_get Q (as_tuple st, a) 0 =
                       Max ((\<lambda>a. dict_get Q (as_tuple st, a) 0) ` set (actions env))})"
proof -
  let ?qv = "q env Q st"
  let ?c = "argmax_positions ?qv (Max (set ?qv))"
  have ne: "?qv \<noteq> []"
    using assms by (simp add: q_def)
  obtain r w' where rw: "randbelow env (length ?c) w = (r, w')"
    by (cases "randbelow env (length ?c) w")
  have pin: "?c = filter (\<lambda>i. ?qv ! i = Max (set ?qv)) [0..<length (actions env)]"
    by (simp add: argmax_positions_def length_q)
  have c_ne: "?c \<noteq> []"
    by (rule argmax_positions_nonempty [OF ne])
  have p: "predict env Q st w = Inr (?c ! (r mod length ?c), w')"
    by (rule predict_eq [OF assms rw])
  have st: "set ?c = {i. i < length (actions env) \<and> ?qv ! i = Max (set ?qv)}"
    by (simp add: argmax_positions_set length_q)
  have once: "\<forall>i \<in> set ?c. \<exists>!k. k < length ?c \<and> ?c ! k = i"
    using argmax_positions_distinct [of ?qv "Max (set ?qv)"]
    by (auto simp: in_set_conv_nth nth_eq_iff_index_eq)
  have zero: "(\<forall>a \<in> set (actions env). Q (as_tuple st, a) = None) \<longrightarrow> ?c = [0..<length (actions env)]"
  proof
    assume "\<forall>a \<in> set (actions env). Q (as_tuple st, a) = None"
    then have "?qv = replicate (length (actions env)) 0"
      by (rule q_all_zero)
    moreover have "Max (set (replicate (length (actions env)) (0::real))) = 0"
      using assms by simp
    ultimately show "?c = [0..<length (actions env)]"
      by (simp add: argmax_positions_all)
  qed
  have ord: "actions env = [0..<length (actions env)] \<longrightarrow>
        set ?c = {a \<in> set (actions env).
                       dict_get Q (as_tuple st, a) 0 =
                       Max ((\<lambda>a. dict_get Q (as_tuple st, a) 0) ` set (actions env))}"
    using st q_ordinal_actions [of env Q st] by simp
  from pin rw p c_ne argmax_positions_sorted [of ?qv "Max (set ?qv)"]
    argmax_positions_distinct [of ?qv "Max (set ?qv)"] st once zero ord
  show ?thesis
    by (intro exI [of _ ?c] exI [of _ r] exI [of _ w']) (intro conjI; assumption)
qed

theorem predict_among_maximisers_witness:
  "actions (corridor_env\<lparr>randbelow := \<lambda>n w. (1, w)\<rparr>) = [0, 1] \<and>
   q (corridor_env\<lparr>randbelow := \<lambda>n w. (1, w)\<rparr>) [([0], 0) \<mapsto> 3 / 4, ([0], 1) \<mapsto> 3 / 4]
     (Tuple [0]) = [3 / 4, 3 / 4] \<and>
   predict (corridor_env\<lparr>randbelow := \<lambda>n w. (1, w)\<rparr>) [([0], 0) \<mapsto> 3 / 4, ([0], 1) \<mapsto> 3 / 4]
     (Tuple [0]) (0, 3) = Inr (1, (0, 3)) \<and>
   predict corridor_env [([0], 0) \<mapsto> 3 / 4, ([0], 1) \<mapsto> 3 / 4] (Tuple [0]) (0, 3) = Inr (0, (0, 3)) \<and>
   predict (corridor_env\<lparr>randbelow := \<lambda>n w. (1, w)\<rparr>) [([0], 0) \<mapsto> 1 / 4, ([0], 1) \<mapsto> 3 / 4]
     (Tuple [0]) (0, 3) = Inr (1, (0, 3)) \<and>
   predict (corridor_env\<lparr>randbelow := \<lambda>n w. (1, w)\<rparr>) Map.empty (Tuple [0]) (0, 3) = Inr (1, (0, 3))"
proof -
  let ?env = "corridor_env\<lparr>randbelow := \<lambda>n w. (1, w)\<rparr>"
  let ?tie = "[([0::int], 0::nat) \<mapsto> 3 / 4 :: real, ([0], 1) \<mapsto> 3 / 4]"
  let ?one = "[([0::int], 0::nat) \<mapsto> 1 / 4 :: real, ([0], 1) \<mapsto> 3 / 4]"
  have a: "actions ?env \<noteq> []" "actions corridor_env \<noteq> []"
    by (simp_all add: corridor_env_def)
  have acts: "actions ?env = [0, 1]"
    by (simp add: corridor_env_def)
  have q1: "q ?env ?tie (Tuple [0]) = [3 / 4, 3 / 4]" "q corridor_env ?tie (Tuple [0]) = [3 / 4, 3 / 4]"
    "q ?env ?one (Tuple [0]) = [1 / 4, 3 / 4]" "q ?env Map.empty (Tuple [0]) = [0, 0]"
    by (simp_all add: q_def corridor_env_def dict_get_def)
  have l: "length (actions ?env) = 2" "length (actions corridor_env) = 2"
    by (simp_all add: corridor_env_def)
  have up: "[0..<2] = [0, Suc 0]"
    by (simp add: upt_rec)
  have rb: "\<And>n w. randbelow ?env n w = (1, w)" "\<And>n w. randbelow corridor_env n w = (0, w)"
    by (simp_all add: corridor_env_def)
  from predict_among_maximisers [OF a(1), of ?tie "Tuple [0]" "(0, 3)"]
  have 1: "predict ?env ?tie (Tuple [0]) (0, 3) = Inr (1, (0, 3))"
    unfolding q1 l up rb by auto
  from predict_among_maximisers [OF a(2), of ?tie "Tuple [0]" "(0, 3)"]
  have 2: "predict corridor_env ?tie (Tuple [0]) (0, 3) = Inr (0, (0, 3))"
    unfolding q1 l up rb by auto
  from predict_among_maximisers [OF a(1), of ?one "Tuple [0]" "(0, 3)"]
  have 3: "predict ?env ?one (Tuple [0]) (0, 3) = Inr (1, (0, 3))"
    unfolding q1 l up rb by auto
  from predict_among_maximisers [OF a(1), of Map.empty "Tuple [0]" "(0, 3)"]
  have 4: "predict ?env Map.empty (Tuple [0]) (0, 3) = Inr (1, (0, 3))"
    unfolding q1 l up rb by auto
  from acts q1(1) 1 2 3 4 show ?thesis
    by simp
qed

section \<open>Properties of the one-step update\<close>

lemma dict_get_ensure_key: "dict_get (ensure_key Q k) k' 0 = dict_get Q k' 0"
  by (auto simp: ensure_key_def dict_get_def split: option.splits)

lemma ensure_key_at: "ensure_key Q k k = Some (dict_get Q k 0)"
  by (auto simp: ensure_key_def dict_get_def split: option.splits)

lemma max_next_Q_Max:
  "actions env \<noteq> [] \<Longrightarrow>
   max_next_Q env Q ns = Inr (Max ((\<lambda>a. dict_get Q (ns, a) 0) ` set (actions env)))"
  by (simp add: max_next_Q_def py_max_Max)

text \<open>
  C1. With at least one action, the update of \<^verbatim>\<open>QTableModel.train\<close> after the transition
  (state, action) to (next\_state, reward) succeeds and leaves at (state, action) the
  value \<open>old + learning_rate * (reward + discount * m - old)\<close>, where \<open>old\<close> is the
  entry before the update, 0 if there was none, and \<open>m\<close> is the greatest of the entries
  of next\_state over all actions of the environment, an absent entry counting as 0.
\<close>

theorem td_update_value:
  assumes "actions env \<noteq> []"
  shows "\<exists>Q'. td_update env discount learning_rate Q state action next_state reward = Inr Q' \<and>
     Q' (state, action) =
       Some (dict_get Q (state, action) 0 +
             learning_rate *
               (reward + discount * Max ((\<lambda>a. dict_get Q (next_state, a) 0) ` set (actions env))
                - dict_get Q (state, action) 0))"
  using assms
  by (simp add: td_update_def Let_def max_next_Q_Max dict_get_ensure_key ensure_key_at)

theorem td_update_value_witness:
  "actions corridor_env \<noteq> [] \<and>
   (\<exists>Q'. td_update corridor_env (1 / 2) (1 / 2) [([1], 0) \<mapsto> 1, ([0], 0) \<mapsto> 1 / 2]
            [0] 0 [1] (- (1 / 4)) = Inr Q' \<and>
         Q' ([0], 0) = Some (3 / 8))"
proof -
  have a: "actions corridor_env \<noteq> []"
    by (simp add: corridor_env_def)
  have m: "Max ((\<lambda>a. dict_get [([1::int], 0::nat) \<mapsto> 1, ([0], 0) \<mapsto> 1 / 2] ([1], a) (0::real)) `
                set (actions corridor_env)) = 1"
    by (simp add: corridor_env_def dict_get_def)
  from td_update_value [OF a, of "1 / 2" "1 / 2" "[([1], 0) \<mapsto> 1, ([0], 0) \<mapsto> 1 / 2]"
                          "[0]" 0 "[1]" "- (1 / 4)"]
  show ?thesis
    unfolding m using a by (simp add: dict_get_def)
qed

section \<open>Properties of the trace update\<close>

lemma dom_ensure_key: "dom (ensure_key Q k) = insert k (dom Q)"
  by (auto simp: ensure_key_def)

lemma update_trace_Q_result:
  assumes "distinct keys" and "set keys \<subseteq> dom Q" and "set keys \<subseteq> dom (map_of etrace)"
  shows "\<exists>Q'. update_trace_Q keys etrace learning_rate delta Q = Inr Q' \<and>
           (\<forall>k. Q' k = (if k \<in> set keys
                         then Some (the (Q k) + learning_rate * delta * the (map_of etrace k))
                         else Q k))"
  using assms
proof (induction keys arbitrary: Q)
  case Nil
  then show ?case by simp
next
  case (Cons key keys)
  from Cons.prems obtain v e where v: "Q key = Some v" and e: "map_of etrace key = Some e"
    by auto
  let ?Q = "Q(key \<mapsto> v + learning_rate * delta * e)"
  have "distinct keys" "set keys \<subseteq> dom ?Q" "set keys \<subseteq> dom (map_of etrace)"
    using Cons.prems by auto
  from Cons.IH [OF this] obtain Q' where
    Q': "update_trace_Q keys etrace learning_rate delta ?Q = Inr Q'"
    and val: "\<forall>k. Q' k = (if k \<in> set keys
                         then Some (the (?Q k) + learning_rate * delta * the (map_of etrace k))
                         else ?Q k)"
    by blast
  have "key \<notin> set keys" using Cons.prems by simp
  with val v e have "\<forall>k. Q' k = (if k \<in> set (key # keys)
                         then Some (the (Q k) + learning_rate * delta * the (map_of etrace k))
                         else Q k)"
    by auto
  with Q' v e show ?case by simp
qed

lemma update_trace_Q_dom:
  "update_trace_Q keys etrace learning_rate delta Q = Inr Q' \<Longrightarrow> dom Q' = dom Q"
proof (induction keys arbitrary: Q)
  case Nil
  then show ?case by simp
next
  case (Cons key keys)
  from Cons.prems obtain v e where v: "Q key = Some v" and e: "map_of etrace key = Some e"
    and r: "update_trace_Q keys etrace learning_rate delta
              (Q(key \<mapsto> v + learning_rate * delta * e)) = Inr Q'"
    by (auto split: option.splits)
  have "dom Q' = dom (Q(key \<mapsto> v + learning_rate * delta * e))"
    by (rule Cons.IH [OF r])
  also have "\<dots> = dom Q"
    using v by auto
  finally show ?case .
qed

lemma update_trace_Q_no_KeyError:
  assumes "set keys \<subseteq> dom Q" and "set keys \<subseteq> dom (map_of etrace)"
  shows "\<exists>Q'. update_trace_Q keys etrace learning_rate delta Q = Inr Q'"
  using assms
proof (induction keys arbitrary: Q)
  case Nil
  then show ?case by simp
next
  case (Cons key keys)
  from Cons.prems obtain v e where v: "Q key = Some v" and e: "map_of etrace key = Some e"
    by auto
  let ?Q = "Q(key \<mapsto> v + learning_rate * delta * e)"
  have "set keys \<subseteq> dom ?Q" "set keys \<subseteq> dom (map_of etrace)"
    using Cons.prems by auto
  from Cons.IH [OF this] obtain Q' where
    "update_trace_Q keys etrace learning_rate delta ?Q = Inr Q'"
    by blast
  with v e show ?case by simp
qed

lemma keys_decay_trace: "map fst (decay_trace etrace d ed) = map fst etrace"
  by (simp add: decay_trace_def case_prod_unfold comp_def)

lemma keys_dict_set: "fst ` set (dict_set d k v) = insert k (fst ` set d)"
  by (induction d k v rule: dict_set.induct) auto

lemma keys_etrace_visit: "fst ` set (etrace_visit etrace k) = insert k (fst ` set etrace)"
  by (simp add: etrace_visit_def keys_dict_set split: option.splits)

lemma distinct_dict_set: "distinct (map fst d) \<Longrightarrow> distinct (map fst (dict_set d k v))"
  by (induction d k v rule: dict_set.induct) (auto simp: keys_dict_set)

lemma distinct_etrace_visit: "distinct (map fst etrace) \<Longrightarrow> distinct (map fst (etrace_visit etrace k))"
  by (simp add: etrace_visit_def distinct_dict_set split: option.splits)

text \<open>
  C2. One step of \<^verbatim>\<open>QTableTraceModel.train\<close>, on a trace that already counts the chosen
  pair and whose keys are all in the table once the chosen pair is: the TD error
  \<open>delta = reward + discount * m - Q[state, action]\<close> is one value, taken from the table as
  it was before any update of this step (an absent entry counting as 0); every pair of the
  trace, not only the chosen one, gets \<open>learning_rate * delta * etrace[key]\<close> added to its
  table value, every other key keeps its value, and afterwards every trace entry is
  multiplied by \<open>discount * eligibility_decay\<close>.
\<close>

theorem trace_update_bulk:
  assumes "actions env \<noteq> []"
    and "distinct (map fst etrace)"
    and "fst ` set etrace \<subseteq> insert (state, action) (dom Q)"
  shows "\<exists>Q'. trace_update env discount learning_rate eligibility_decay Q etrace state action
                next_state reward =
              Inr (Q', map (\<lambda>(key, v). (key, v * (discount * eligibility_decay))) etrace) \<and>
          (\<forall>(key, e) \<in> set etrace.
             Q' key = Some (dict_get Q key 0 + learning_rate *
                (reward + discount * Max ((\<lambda>a. dict_get Q (next_state, a) 0) ` set (actions env))
                   - dict_get Q (state, action) 0) * e)) \<and>
          (\<forall>key. key \<notin> fst ` set etrace \<longrightarrow> Q' key = ensure_key Q (state, action) key)"
proof -
  let ?Q1 = "ensure_key Q (state, action)"
  let ?delta = "reward + discount * Max ((\<lambda>a. dict_get Q (next_state, a) 0) ` set (actions env))
                   - dict_get Q (state, action) 0"
  have keys: "set (map fst etrace) \<subseteq> dom ?Q1"
    using assms(3) by (simp add: dom_ensure_key)
  have keys': "set (map fst etrace) \<subseteq> dom (map_of etrace)"
    by (simp add: dom_map_of_conv_image_fst)
  from update_trace_Q_result [OF assms(2) keys keys', of learning_rate ?delta]
  obtain Q' where Q': "update_trace_Q (map fst etrace) etrace learning_rate ?delta ?Q1 = Inr Q'"
    and val: "\<forall>k. Q' k = (if k \<in> set (map fst etrace)
                 then Some (the (?Q1 k) + learning_rate * ?delta * the (map_of etrace k))
                 else ?Q1 k)"
    by blast
  have the_Q1: "\<And>k. k \<in> dom ?Q1 \<Longrightarrow> the (?Q1 k) = dict_get Q k 0"
    by (auto simp: ensure_key_def dict_get_def split: if_splits)
  have run: "trace_update env discount learning_rate eligibility_decay Q etrace state action
                next_state reward =
              Inr (Q', map (\<lambda>(key, v). (key, v * (discount * eligibility_decay))) etrace)"
    using assms(1) Q'
    by (simp add: trace_update_def Let_def max_next_Q_Max dict_get_ensure_key ensure_key_at
                  decay_trace_def)
  have bulk: "\<forall>(key, e) \<in> set etrace.
             Q' key = Some (dict_get Q key 0 + learning_rate * ?delta * e)"
  proof (clarify)
    fix key e assume m: "(key, e) \<in> set etrace"
    then have "map_of etrace key = Some e"
      using assms(2) by simp
    moreover have "key \<in> set (map fst etrace)" using m by force
    moreover from this keys have "the (?Q1 key) = dict_get Q key 0"
      by (intro the_Q1) auto
    ultimately show "Q' key = Some (dict_get Q key 0 + learning_rate * ?delta * e)"
      using val [rule_format, of key] by simp
  qed
  have rest: "\<forall>key. key \<notin> fst ` set etrace \<longrightarrow> Q' key = ?Q1 key"
    using val by simp
  from run bulk rest show ?thesis by blast
qed



lemma corridor_fields:
  "actions corridor_env = [0, 1]"
  "empty corridor_env = [(0, 0), (1, 0)]"
  "reset corridor_env c w = ([[fst c]], (fst c, 3))"
  "step corridor_env = corridor_step"
  "check_win_all corridor_env Q w = ((Q ([1], 0) \<noteq> None, if Q ([1], 0) \<noteq> None then 1 else 0), w)"
  "render_q corridor_env Q w = w"
  "np_random corridor_env w = (1, w)"
  "randbelow corridor_env n w = (0, w)"
  by (simp_all add: corridor_env_def)

lemmas run_simps =
  corridor_fields corridor_step_def no_kwargs_def train_def trace_train_def train_loop_def
  run_episode_def choose_action_def predict_def q_def np_max_def argmax_positions_def
  random_choice_def td_update_def trace_update_def max_next_Q_def ensure_key_def dict_get_def
  kwargs_get_def flatten_def etrace_visit_def decay_trace_def default_check_convergence_every_def
  Let_def eval_nat_numeral


lemma td_update_dom:
  assumes "td_update env discount learning_rate Q state action next_state reward = Inr Q'"
  shows "dom Q' = insert (state, action) (dom Q)"
proof -
  from assms obtain v where "Q' = (ensure_key Q (state, action))((state, action) \<mapsto> v)"
    by (auto simp: td_update_def Let_def split: sum.splits option.splits)
  then show ?thesis
    by (simp add: dom_ensure_key)
qed

lemma trace_update_dom:
  assumes "trace_update env discount learning_rate eligibility_decay Q etrace state action
             next_state reward = Inr (Q', etrace')"
  shows "dom Q' = insert (state, action) (dom Q)" and "map fst etrace' = map fst etrace"
proof -
  from assms obtain delta where
    u: "update_trace_Q (map fst etrace) etrace learning_rate delta (ensure_key Q (state, action)) = Inr Q'"
    and e: "etrace' = decay_trace etrace discount eligibility_decay"
    by (auto simp: trace_update_def Let_def split: sum.splits option.splits)
  from update_trace_Q_dom [OF u] show "dom Q' = insert (state, action) (dom Q)"
    by (simp add: dom_ensure_key)
  from e show "map fst etrace' = map fst etrace"
    by (simp add: keys_decay_trace)
qed

lemma trace_update_no_KeyError:
  assumes "fst ` set etrace \<subseteq> insert (state, action) (dom Q)"
  shows "trace_update env discount learning_rate eligibility_decay Q etrace state action
           next_state reward \<noteq> Inl KeyError"
proof -
  let ?Q1 = "ensure_key Q (state, action)"
  have "set (map fst etrace) \<subseteq> dom ?Q1" "set (map fst etrace) \<subseteq> dom (map_of etrace)"
    using assms by (simp_all add: dom_ensure_key dom_map_of_conv_image_fst)
  from update_trace_Q_no_KeyError [OF this]
  have ok: "\<And>lr delta. \<exists>Q'. update_trace_Q (map fst etrace) etrace lr delta ?Q1 = Inr Q'"
    by blast
  show ?thesis
  proof (cases "max_next_Q env ?Q1 next_state")
    case (Inl e)
    then have "e = ValueError"
      by (cases "actions env") (simp_all add: max_next_Q_def)
    with Inl show ?thesis
      by (simp add: trace_update_def Let_def)
  next
    case (Inr m)
    obtain Q' where "update_trace_Q (map fst etrace) etrace learning_rate
        (reward + discount * m - dict_get Q (state, action) 0) ?Q1 = Inr Q'"
      using ok by blast
    with Inr show ?thesis
      by (simp add: trace_update_def Let_def ensure_key_at)
  qed
qed

lemma random_choice_error: "random_choice env seq w = Inl e \<Longrightarrow> e = IndexError"
  by (auto simp: random_choice_def split: if_splits prod.splits)

lemma predict_error: "predict env Q st w = Inl e \<Longrightarrow> e = ValueError \<or> e = IndexError"
  by (cases "q env Q st")
     (auto simp: predict_def Let_def np_max_def dest: random_choice_error split: sum.splits)

lemma choose_action_error:
  "choose_action env Q exploration_rate state w = Inl e \<Longrightarrow> e = ValueError \<or> e = IndexError"
  by (auto simp: choose_action_def dest: random_choice_error predict_error
           split: prod.splits if_splits)

lemma trace_episode_no_KeyError:
  "fst ` set etrace \<subseteq> dom Q \<Longrightarrow>
   trace_episode fuel env discount learning_rate eligibility_decay etrace Q exploration_rate
     state cumulative_reward w \<noteq> Some (Inl KeyError)"
proof (induction fuel arbitrary: etrace Q state cumulative_reward w)
  case 0
  then show ?case by simp
next
  case (Suc fuel)
  show ?case
  proof (cases "choose_action env Q exploration_rate state w")
    case (Inl e)
    with choose_action_error [OF Inl] show ?thesis by auto
  next
    case (Inr aw)
    obtain action w1 where aw: "aw = (action, w1)" by (cases aw)
    obtain next_arr reward status w2 where
      st: "step env action w1 = ((next_arr, reward, status), w2)"
      by (metis prod.exhaust)
    let ?et = "etrace_visit etrace (state, action)"
    have keys: "fst ` set ?et \<subseteq> insert (state, action) (dom Q)"
      using Suc.prems by (auto simp: keys_etrace_visit)
    show ?thesis
    proof (cases "trace_update env discount learning_rate eligibility_decay Q ?et state action
                    (flatten next_arr) reward")
      case (Inl e)
      with trace_update_no_KeyError [OF keys] have "e \<noteq> KeyError" by metis
      with Inl Inr aw st show ?thesis by simp
    next
      case upd: (Inr r)
      obtain Q' etrace' where r: "r = (Q', etrace')" by (cases r)
      from trace_update_dom [OF upd [unfolded r]] keys
      have "fst ` set etrace' \<subseteq> dom Q'"
        by (metis list.set_map)
      from Suc.IH [OF this] upd r Inr aw st show ?thesis by simp
    qed
  qed
qed


lemma run_episode_Inr:
  assumes "run_episode env play stop_at_convergence exploration_decay check_convergence_every
             episode ts = Some (Inr (brk, ts'))"
  shows "\<exists>start_cell w1 arr w2 cumulative_reward w3.
      random_choice env (if ts_start_list ts = [] then empty env else ts_start_list ts)
        (ts_world ts) = Inr (start_cell, w1) \<and>
      reset env start_cell w1 = (arr, w2) \<and>
      play (ts_Q ts) (ts_exploration_rate ts) (flatten arr) (ts_cumulative_reward ts) w2 =
        Some (Inr (ts_Q ts', cumulative_reward, w3)) \<and>
      check_convergence_every \<noteq> 0 \<and>
      ts_episode ts' = episode \<and>
      ts_cumulative_reward_history ts' = ts_cumulative_reward_history ts @ [cumulative_reward] \<and>
      (if episode mod check_convergence_every = 0
       then ts_world ts' = snd (check_win_all env (ts_Q ts') w3) \<and>
            ts_win_history ts' =
              ts_win_history ts @ [(episode, snd (fst (check_win_all env (ts_Q ts') w3)))] \<and>
            brk = (fst (fst (check_win_all env (ts_Q ts') w3)) \<and> stop_at_convergence)
       else ts_world ts' = w3 \<and> ts_win_history ts' = ts_win_history ts \<and> \<not> brk)"
  using assms
  unfolding run_episode_def Let_def
  by (auto split: sum.splits prod.splits option.splits if_splits)

lemma run_episode_Inl:
  assumes "run_episode env play stop_at_convergence exploration_decay check_convergence_every
             episode ts = Some (Inl e)"
  shows "e = IndexError \<or> e = ZeroDivisionError \<or>
         (\<exists>Q er s c w. play Q er s c w = Some (Inl e))"
  using assms
  unfolding run_episode_def Let_def
  by (auto split: sum.splits prod.splits option.splits if_splits dest: random_choice_error)

section \<open>Properties of the training loop\<close>

lemma for_episodes_Inl:
  "for_episodes env play stop_at_convergence exploration_decay check_convergence_every eps ts =
     Some (Inl e) \<Longrightarrow>
   e = IndexError \<or> e = ZeroDivisionError \<or> (\<exists>Q er s c w. play Q er s c w = Some (Inl e))"
proof (induction eps arbitrary: ts)
  case Nil
  then show ?case by simp
next
  case (Cons episode rest)
  then show ?case
    by (auto split: option.splits sum.splits if_splits dest: run_episode_Inl)
qed

lemma train_loop_Inl:
  "train_loop env play stop_at_convergence kw Q w = Some (Inl e) \<Longrightarrow>
   e = IndexError \<or> e = ZeroDivisionError \<or> (\<exists>Q er s c w. play Q er s c w = Some (Inl e))"
  unfolding train_loop_def Let_def
  by (auto split: option.splits sum.splits dest: for_episodes_Inl)

lemma for_episodes_Q_grows:
  assumes grows: "\<forall>Q er s c w Q' c' w'. play Q er s c w = Some (Inr (Q', c', w')) \<longrightarrow> dom Q \<subseteq> dom Q'"
  shows "for_episodes env play stop_at_convergence exploration_decay check_convergence_every eps ts =
     Some (Inr ts') \<Longrightarrow> dom (ts_Q ts) \<subseteq> dom (ts_Q ts')"
proof (induction eps arbitrary: ts)
  case Nil
  then show ?case by simp
next
  case (Cons episode rest)
  from Cons.prems obtain brk ts1 where
    r: "run_episode env play stop_at_convergence exploration_decay check_convergence_every
          episode ts = Some (Inr (brk, ts1))"
    and rest: "if brk then ts' = ts1
               else for_episodes env play stop_at_convergence exploration_decay
                      check_convergence_every rest ts1 = Some (Inr ts')"
    by (auto split: option.splits sum.splits if_splits)
  from run_episode_Inr [OF r] grows have 1: "dom (ts_Q ts) \<subseteq> dom (ts_Q ts1)"
    by blast
  show ?case
  proof (cases brk)
    case True
    with rest 1 show ?thesis by simp
  next
    case False
    with rest Cons.IH have "dom (ts_Q ts1) \<subseteq> dom (ts_Q ts')" by simp
    with 1 show ?thesis by blast
  qed
qed

lemma train_loop_Q_grows:
  assumes grows: "\<forall>Q er s c w Q' c' w'. play Q er s c w = Some (Inr (Q', c', w')) \<longrightarrow> dom Q \<subseteq> dom Q'"
    and run: "train_loop env play stop_at_convergence kw Q w = Some (Inr (res, Q', w'))"
  shows "dom Q \<subseteq> dom Q'"
proof -
  from run obtain ts ts' where
    f: "for_episodes env play stop_at_convergence
       (kwargs_get (kw_exploration_decay kw) (995 / 1000))
       (kwargs_get (kw_check_convergence_every kw) default_check_convergence_every)
       [1..max (kwargs_get (kw_episodes kw) 1000) 1] ts = Some (Inr ts')"
    and q: "ts_Q ts = Q" "ts_Q ts' = Q'"
    unfolding train_loop_def Let_def
    by (auto split: option.splits sum.splits)
  from for_episodes_Q_grows [OF grows f] q show ?thesis
    by simp
qed

lemma play_episode_Suc_Inr:
  assumes "play_episode (Suc fuel) env discount learning_rate Q exploration_rate state
             cumulative_reward w = Some (Inr r)"
  shows "\<exists>action w1 next_arr reward status w2 Q1.
      choose_action env Q exploration_rate state w = Inr (action, w1) \<and>
      step env action w1 = ((next_arr, reward, status), w2) \<and>
      td_update env discount learning_rate Q state action (flatten next_arr) reward = Inr Q1 \<and>
      (if status = WIN \<or> status = LOSE then r = (Q1, cumulative_reward + reward, w2)
       else play_episode fuel env discount learning_rate Q1 exploration_rate (flatten next_arr)
              (cumulative_reward + reward) (render_q env Q1 w2) = Some (Inr r))"
  using assms
  by (auto split: sum.splits prod.splits if_splits)

lemma trace_episode_Suc_Inr:
  assumes "trace_episode (Suc fuel) env discount learning_rate eligibility_decay etrace Q
             exploration_rate state cumulative_reward w = Some (Inr r)"
  shows "\<exists>action w1 next_arr reward status w2 Q1 etrace1.
      choose_action env Q exploration_rate state w = Inr (action, w1) \<and>
      step env action w1 = ((next_arr, reward, status), w2) \<and>
      trace_update env discount learning_rate eligibility_decay Q
        (etrace_visit etrace (state, action)) state action (flatten next_arr) reward =
        Inr (Q1, etrace1) \<and>
      (if status = WIN \<or> status = LOSE then r = (Q1, cumulative_reward + reward, w2)
       else trace_episode fuel env discount learning_rate eligibility_decay etrace1 Q1
              exploration_rate (flatten next_arr) (cumulative_reward + reward)
              (render_q env Q1 w2) = Some (Inr r))"
  using assms
  by (auto split: sum.splits prod.splits if_splits)

lemma play_episode_Q_grows:
  "play_episode fuel env discount learning_rate Q exploration_rate state cumulative_reward w =
     Some (Inr (Q', c', w')) \<Longrightarrow> dom Q \<subseteq> dom Q'"
proof (induction fuel arbitrary: Q state cumulative_reward w)
  case 0
  then show ?case by simp
next
  case (Suc fuel)
  from play_episode_Suc_Inr [OF Suc.prems] obtain action next_arr reward status w2 Q1 where
    upd: "td_update env discount learning_rate Q state action (flatten next_arr) reward = Inr Q1"
    and rest: "if status = WIN \<or> status = LOSE then (Q', c', w') = (Q1, cumulative_reward + reward, w2)
               else play_episode fuel env discount learning_rate Q1 exploration_rate
                      (flatten next_arr) (cumulative_reward + reward) (render_q env Q1 w2) =
                    Some (Inr (Q', c', w'))"
    by blast
  from td_update_dom [OF upd] have 1: "dom Q \<subseteq> dom Q1" by auto
  show ?case
  proof (cases "status = WIN \<or> status = LOSE")
    case True
    with rest 1 show ?thesis by simp
  next
    case False
    with rest have "dom Q1 \<subseteq> dom Q'" by (intro Suc.IH) simp
    with 1 show ?thesis by blast
  qed
qed

lemma trace_episode_Q_grows:
  "trace_episode fuel env discount learning_rate eligibility_decay etrace Q exploration_rate state
     cumulative_reward w = Some (Inr (Q', c', w')) \<Longrightarrow> dom Q \<subseteq> dom Q'"
proof (induction fuel arbitrary: etrace Q state cumulative_reward w)
  case 0
  then show ?case by simp
next
  case (Suc fuel)
  from trace_episode_Suc_Inr [OF Suc.prems] obtain action next_arr reward status w2 Q1 etrace1 where
    upd: "trace_update env discount learning_rate eligibility_decay Q
            (etrace_visit etrace (state, action)) state action (flatten next_arr) reward =
          Inr (Q1, etrace1)"
    and rest: "if status = WIN \<or> status = LOSE then (Q', c', w') = (Q1, cumulative_reward + reward, w2)
               else trace_episode fuel env discount learning_rate eligibility_decay etrace1 Q1
                      exploration_rate (flatten next_arr) (cumulative_reward + reward)
                      (render_q env Q1 w2) = Some (Inr (Q', c', w'))"
    by blast
  from trace_update_dom(1) [OF upd] have 1: "dom Q \<subseteq> dom Q1" by auto
  show ?case
  proof (cases "status = WIN \<or> status = LOSE")
    case True
    with rest 1 show ?thesis by simp
  next
    case False
    with rest have "dom Q1 \<subseteq> dom Q'" by (intro Suc.IH) simp
    with 1 show ?thesis by blast
  qed
qed

lemma corridor_actions: "actions corridor_env \<noteq> []"
  by (simp add: corridor_env_def)

theorem trace_update_bulk_witness:
  "\<exists>Q'. trace_update corridor_env (1 / 2) (1 / 2) (1 / 2) [([0], 0) \<mapsto> 1 / 2]
            [(([0], 0), 1 / 4), (([1], 0), 1)] [1] 0 [2] 1 =
          Inr (Q', [(([0], 0), 1 / 16), (([1], 0), 1 / 4)]) \<and>
        Q' ([0], 0) = Some (5 / 8) \<and> Q' ([1], 0) = Some (1 / 2)"
proof -
  let ?Q = "[([0::int], 0::nat) \<mapsto> (1 / 2 :: real)]"
  let ?et = "[(([0::int], 0::nat), 1 / 4 :: real), (([1], 0), 1)]"
  have d: "distinct (map fst ?et)"
    by simp
  have k: "fst ` set ?et \<subseteq> insert ([1], 0) (dom ?Q)"
    by simp
  have m: "Max ((\<lambda>a. dict_get ?Q ([2], a) 0) ` set (actions corridor_env)) = 0"
    by (simp add: corridor_env_def dict_get_def)
  from trace_update_bulk [OF corridor_actions d k, of "1 / 2" "1 / 2" "1 / 2" "[2]" 1]
  show ?thesis
    unfolding m by (auto simp: dict_get_def)
qed

text \<open>
  C9. The keys of the table only grow. A successful update of either model leaves exactly
  the old keys and the pair just played (inserted or overwritten), and a run of
  \<^verbatim>\<open>train\<close> of either model that returns leaves a table that has every key the table
  had at the call. Nothing in either file deletes from the table.
\<close>

theorem table_keys_grow:
  "(td_update env discount learning_rate Q state action next_state reward = Inr Q' \<longrightarrow>
      dom Q' = insert (state, action) (dom Q)) \<and>
   (trace_update env discount learning_rate eligibility_decay Q etrace state action next_state
      reward = Inr (Q', etrace') \<longrightarrow> dom Q' = insert (state, action) (dom Q)) \<and>
   (train fuel env stop_at_convergence kw Q w = Some (Inr (res, Q', w')) \<longrightarrow> dom Q \<subseteq> dom Q') \<and>
   (trace_train fuel env stop_at_convergence kw Q w = Some (Inr (res, Q', w')) \<longrightarrow>
      dom Q \<subseteq> dom Q')"
proof (intro conjI impI)
  assume "td_update env discount learning_rate Q state action next_state reward = Inr Q'"
  then show "dom Q' = insert (state, action) (dom Q)"
    by (rule td_update_dom)
next
  assume "trace_update env discount learning_rate eligibility_decay Q etrace state action
            next_state reward = Inr (Q', etrace')"
  then show "dom Q' = insert (state, action) (dom Q)"
    by (rule trace_update_dom(1))
next
  assume "train fuel env stop_at_convergence kw Q w = Some (Inr (res, Q', w'))"
  then show "dom Q \<subseteq> dom Q'"
    unfolding train_def Let_def
    by (rule train_loop_Q_grows [rotated]) (intro allI impI, erule play_episode_Q_grows)
next
  assume "trace_train fuel env stop_at_convergence kw Q w = Some (Inr (res, Q', w'))"
  then show "dom Q \<subseteq> dom Q'"
    unfolding trace_train_def Let_def
    by (rule train_loop_Q_grows [rotated]) (intro allI impI, erule trace_episode_Q_grows)
qed

theorem table_keys_grow_witness:
  "td_update corridor_env (1 / 2) (1 / 2) [([5], 0) \<mapsto> 1] [0] 0 [1] (- (1 / 4)) =
     Inr [([5], 0) \<mapsto> 1, ([0], 0) \<mapsto> - (1 / 8)] \<and>
   dom [([5], 0) \<mapsto> 1, ([0::int], 0::nat) \<mapsto> - (1 / 8 :: real)] =
     insert ([0], 0) (dom [([5], 0) \<mapsto> (1 :: real)]) \<and>
   (\<exists>res Q' w'.
      train 4 corridor_env False (no_kwargs\<lparr>kw_episodes := Some 1\<rparr>) [([5], 0) \<mapsto> 1] (0, 0) =
        Some (Inr (res, Q', w')) \<and>
      dom [([5::int], 0::nat) \<mapsto> (1 :: real)] \<subseteq> dom Q')"
proof -
  have u: "td_update corridor_env (1 / 2) (1 / 2) [([5], 0) \<mapsto> 1] [0] 0 [1] (- (1 / 4)) =
     Inr [([5], 0) \<mapsto> 1, ([0], 0) \<mapsto> - (1 / 8)]"
    by (simp add: run_simps)
  obtain res Q' w' where
    t: "train 4 corridor_env False (no_kwargs\<lparr>kw_episodes := Some 1\<rparr>) [([5], 0) \<mapsto> 1] (0, 0) =
        Some (Inr (res, Q', w'))"
    by (simp add: run_simps)
  from table_keys_grow [where env = corridor_env and discount = "1 / 2" and learning_rate = "1 / 2"
      and Q = "[([5], 0) \<mapsto> 1]" and state = "[0]" and action = 0 and next_state = "[1]"
      and reward = "- (1 / 4)" and Q' = "[([5], 0) \<mapsto> 1, ([0], 0) \<mapsto> - (1 / 8)]"] u
  have 1: "dom [([5], 0) \<mapsto> 1, ([0::int], 0::nat) \<mapsto> - (1 / 8 :: real)] =
     insert ([0], 0) (dom [([5], 0) \<mapsto> (1 :: real)])"
    by blast
  from table_keys_grow [where Q = "[([5], 0) \<mapsto> 1]" and Q' = Q' and fuel = 4
      and env = corridor_env and stop_at_convergence = False
      and kw = "no_kwargs\<lparr>kw_episodes := Some 1\<rparr>" and w = "(0, 0)" and res = res and w' = w'] t
  have 2: "dom [([5::int], 0::nat) \<mapsto> (1 :: real)] \<subseteq> dom Q'"
    by blast
  from u 1 2 t show ?thesis
    by blast
qed

text \<open>
  C10. In \<^verbatim>\<open>QTableTraceModel.train\<close> the keys of the trace are keys of the table whenever
  the bulk update runs. If they are at the head of the loop body, then after the visit of
  the chosen pair they are keys of the table that \<^verbatim>\<open>if (state, action) not in Q\<close> leaves,
  the bulk update raises no KeyError, and the trace and table it leaves satisfy the
  invariant again. A fresh trace is empty, so no episode and no run of \<^verbatim>\<open>train\<close> ends
  in a KeyError.
\<close>

theorem trace_keys_in_table:
  "(fst ` set etrace \<subseteq> dom Q \<longrightarrow>
      fst ` set (etrace_visit etrace (state, action)) \<subseteq> dom (ensure_key Q (state, action)) \<and>
      trace_update env discount learning_rate eligibility_decay Q
        (etrace_visit etrace (state, action)) state action next_state reward \<noteq> Inl KeyError \<and>
      (\<forall>Q' etrace'.
         trace_update env discount learning_rate eligibility_decay Q
           (etrace_visit etrace (state, action)) state action next_state reward = Inr (Q', etrace')
         \<longrightarrow> fst ` set etrace' \<subseteq> dom Q')) \<and>
   trace_episode fuel env discount learning_rate eligibility_decay [] Q exploration_rate state0
     cumulative_reward w \<noteq> Some (Inl KeyError) \<and>
   trace_train fuel env stop_at_convergence kw Q w \<noteq> Some (Inl KeyError)"
proof (intro conjI impI allI)
  assume a: "fst ` set etrace \<subseteq> dom Q"
  then show k: "fst ` set (etrace_visit etrace (state, action)) \<subseteq> dom (ensure_key Q (state, action))"
    by (auto simp: keys_etrace_visit dom_ensure_key)
  then show "trace_update env discount learning_rate eligibility_decay Q
        (etrace_visit etrace (state, action)) state action next_state reward \<noteq> Inl KeyError"
    by (intro trace_update_no_KeyError) (simp add: dom_ensure_key)
  fix Q' etrace'
  assume "trace_update env discount learning_rate eligibility_decay Q
           (etrace_visit etrace (state, action)) state action next_state reward = Inr (Q', etrace')"
  from trace_update_dom [OF this]
  have d: "dom Q' = insert (state, action) (dom Q)"
    and m: "map fst etrace' = map fst (etrace_visit etrace (state, action))"
    by simp_all
  have "fst ` set etrace' = set (map fst etrace')"
    by simp
  also have "\<dots> = fst ` set (etrace_visit etrace (state, action))"
    unfolding m by simp
  finally show "fst ` set etrace' \<subseteq> dom Q'"
    using k d by (simp add: dom_ensure_key)
next
  show "trace_episode fuel env discount learning_rate eligibility_decay [] Q exploration_rate state0
     cumulative_reward w \<noteq> Some (Inl KeyError)"
    by (rule trace_episode_no_KeyError) simp
next
  show "trace_train fuel env stop_at_convergence kw Q w \<noteq> Some (Inl KeyError)"
  proof
    assume "trace_train fuel env stop_at_convergence kw Q w = Some (Inl KeyError)"
    from train_loop_Inl [OF this [unfolded trace_train_def Let_def]]
    obtain Q0 er s c w0 where
      "trace_episode fuel env (kwargs_get (kw_discount kw) (90 / 100))
         (kwargs_get (kw_learning_rate kw) (10 / 100))
         (kwargs_get (kw_eligibility_decay kw) (80 / 100)) [] Q0 er s c w0 = Some (Inl KeyError)"
      by auto
    moreover have "fst ` set ([] :: etrace) \<subseteq> dom Q0" by simp
    ultimately show False
      by (simp add: trace_episode_no_KeyError)
  qed
qed

theorem trace_keys_in_table_witness:
  "fst ` set [(([0::int], 0::nat), 1 / 4 :: real)] \<subseteq> dom [([0], 0) \<mapsto> (1 / 2 :: real)] \<and>
   fst ` set (etrace_visit [(([0], 0), 1 / 4)] ([1], 0)) \<subseteq>
     dom (ensure_key [([0], 0) \<mapsto> 1 / 2] ([1], 0)) \<and>
   trace_update corridor_env (1 / 2) (1 / 2) (1 / 2) [([0], 0) \<mapsto> 1 / 2]
     (etrace_visit [(([0], 0), 1 / 4)] ([1], 0)) [1] 0 [2] 1 \<noteq> Inl KeyError \<and>
   trace_train 4 corridor_env False (no_kwargs\<lparr>kw_episodes := Some 1\<rparr>) Map.empty (0, 0) \<noteq>
     Some (Inl KeyError)"
proof -
  have a: "fst ` set [(([0::int], 0::nat), 1 / 4 :: real)] \<subseteq> dom [([0], 0) \<mapsto> (1 / 2 :: real)]"
    by simp
  from trace_keys_in_table [where etrace = "[(([0], 0), 1 / 4)]" and Q = "[([0], 0) \<mapsto> 1 / 2]"
      and state = "[1]" and action = 0 and env = corridor_env and discount = "1 / 2"
      and learning_rate = "1 / 2" and eligibility_decay = "1 / 2" and next_state = "[2]"
      and reward = 1] a
  have 1: "fst ` set (etrace_visit [(([0], 0), 1 / 4)] ([1], 0)) \<subseteq>
       dom (ensure_key [([0], 0) \<mapsto> 1 / 2] ([1], 0)) \<and>
     trace_update corridor_env (1 / 2) (1 / 2) (1 / 2) [([0], 0) \<mapsto> 1 / 2]
       (etrace_visit [(([0], 0), 1 / 4)] ([1], 0)) [1] 0 [2] 1 \<noteq> Inl KeyError"
    by blast
  from trace_keys_in_table [where fuel = 4 and env = corridor_env and stop_at_convergence = False
      and kw = "no_kwargs\<lparr>kw_episodes := Some 1\<rparr>" and Q = Map.empty and w = "(0, 0)"]
  have 2: "trace_train 4 corridor_env False (no_kwargs\<lparr>kw_episodes := Some 1\<rparr>) Map.empty (0, 0) \<noteq>
     Some (Inl KeyError)"
    by blast
  from a 1 2
  show ?thesis
    by blast
qed

section \<open>The trace of a revisited pair\<close>

lemma map_of_dict_set: "map_of (dict_set d k v) = (map_of d)(k \<mapsto> v)"
  by (induction d k v rule: dict_set.induct) auto

lemma map_of_etrace_visit:
  "map_of (etrace_visit etrace k) = (map_of etrace)(k \<mapsto> (case map_of etrace k of None \<Rightarrow> 1 | Some v \<Rightarrow> v + 1))"
  by (simp add: etrace_visit_def map_of_dict_set split: option.splits)

lemma map_of_decay_trace:
  "map_of (decay_trace etrace discount eligibility_decay) k =
     map_option (\<lambda>v. v * (discount * eligibility_decay)) (map_of etrace k)"
  by (induction etrace) (auto simp: decay_trace_def)

text \<open>
  C3 as stated fails: with the default discount 0.90 and eligibility decay 0.80, in an
  episode that chooses the pairs \<open>([0], 0)\<close>, \<open>([1], 0)\<close>, \<open>([0], 0)\<close>, the trace of the
  first pair right after the increment of the third step is 949/625 = 1.5184, not 2: the
  two decays of the steps before have shrunk the first visit's 1.
\<close>

theorem revisit_trace_value_counterexample:
  "map_of (etrace_visit
             (decay_trace
                (etrace_visit (decay_trace (etrace_visit [] ([0], 0)) (90 / 100) (80 / 100)) ([1], 0))
                (90 / 100) (80 / 100))
             ([0], 0)) ([0], 0) = Some (949 / 625) \<and>
   map_of (etrace_visit
             (decay_trace
                (etrace_visit (decay_trace (etrace_visit [] ([0], 0)) (90 / 100) (80 / 100)) ([1], 0))
                (90 / 100) (80 / 100))
             ([0], 0)) ([0], 0) \<noteq> Some 2"
  by (simp add: etrace_visit_def decay_trace_def)

text \<open>
  C3, amended. For an episode whose chosen pairs are \<open>k0\<close>, \<open>k1\<close>, \<open>k0\<close> with \<open>k0\<close> and \<open>k1\<close>
  distinct, the trace of \<open>k0\<close> right after the increment of the third step, before that
  step's decay, is \<open>(discount * eligibility_decay)\<^sup>2 + 1\<close>: the first visit decayed
  twice, plus 1 for the revisit (the entry is added to, not reset to 1).
\<close>

theorem revisit_trace_value:
  assumes "k0 \<noteq> k1"
  shows "map_of (etrace_visit
                   (decay_trace
                      (etrace_visit (decay_trace (etrace_visit [] k0) discount eligibility_decay) k1)
                      discount eligibility_decay)
                   k0) k0 =
         Some ((discount * eligibility_decay) ^ 2 + 1)"
  using assms
  by (simp add: map_of_etrace_visit map_of_decay_trace power2_eq_square)

theorem revisit_trace_value_witness:
  "([0::int], 0::nat) \<noteq> ([1], 0) \<and>
   map_of (etrace_visit
             (decay_trace
                (etrace_visit (decay_trace (etrace_visit [] ([0], 0)) (1 / 2) (1 / 2)) ([1], 0))
                (1 / 2) (1 / 2))
             ([0], 0)) ([0], 0) = Some (17 / 16)"
  using revisit_trace_value [of "([0], 0)" "([1], 0)" "1 / 2" "1 / 2"]
  by (simp add: power2_eq_square)

section \<open>What the training loop asks of its environment\<close>

lemma observe_fields:
  "actions (observe env) = actions env"
  "empty (observe env) = empty env"
  "reset (observe env) c ob =
     (fst (reset env c (inner ob)),
      ob\<lparr>inner := snd (reset env c (inner ob)), reset_calls := Suc (reset_calls ob)\<rparr>)"
  "step (observe env) a ob =
     (fst (step env a (inner ob)),
      ob\<lparr>inner := snd (step env a (inner ob)), step_calls := Suc (step_calls ob)\<rparr>)"
  "check_win_all (observe env) Q ob =
     (fst (check_win_all env Q (inner ob)),
      ob\<lparr>inner := snd (check_win_all env Q (inner ob)),
         check_log := check_log ob @ [fst (check_win_all env Q (inner ob))]\<rparr>)"
  "render_q (observe env) Q ob =
     ob\<lparr>inner := render_q env Q (inner ob), render_calls := Suc (render_calls ob)\<rparr>"
  "np_random (observe env) ob =
     (fst (np_random env (inner ob)), ob\<lparr>inner := snd (np_random env (inner ob))\<rparr>)"
  "randbelow (observe env) n ob =
     (fst (randbelow env n (inner ob)), ob\<lparr>inner := snd (randbelow env n (inner ob))\<rparr>)"
  by (simp_all add: observe_def split: prod.splits)

lemma random_choice_observe:
  assumes "random_choice (observe env) seq ob = Inr (x, ob')"
  shows "ob' = ob\<lparr>inner := inner ob'\<rparr>"
  using assms
  by (auto simp: random_choice_def observe_fields split: if_splits)





section \<open>Every episode ends in an environment with a step budget\<close>









section \<open>The loop over the episodes\<close>




lemma for_episodes_Cons_Inr:
  assumes "for_episodes env play stop_at_convergence exploration_decay check_convergence_every
             (episode # rest) ts = Some (Inr ts')"
  shows "\<exists>b t1.
      run_episode env play stop_at_convergence exploration_decay check_convergence_every
        episode ts = Some (Inr (b, t1)) \<and>
      (if b then ts' = t1
       else for_episodes env play stop_at_convergence exploration_decay
              check_convergence_every rest t1 = Some (Inr ts'))"
proof (cases "run_episode env play stop_at_convergence exploration_decay check_convergence_every
                episode ts")
  case None
  with assms show ?thesis by simp
next
  case (Some r)
  show ?thesis
  proof (cases r)
    case (Inl e)
    with Some assms show ?thesis by simp
  next
    case (Inr p)
    obtain b t1 where p: "p = (b, t1)" by (cases p)
    show ?thesis
    proof (cases b)
      case True
      with Some Inr p assms show ?thesis
        by (intro exI [of _ True] exI [of _ t1]) simp
    next
      case False
      with Some Inr p assms show ?thesis
        by (intro exI [of _ False] exI [of _ t1]) simp
    qed
  qed
qed

lemma for_episodes_upto:
  assumes step: "\<forall>j t b t'. i \<le> j \<and> j \<le> n \<and> P (j - 1) False t \<and>
                 run_episode env play stop_at_convergence exploration_decay
                   check_convergence_every j t = Some (Inr (b, t')) \<longrightarrow> P j b t'"
  shows "k = nat (n - l) \<Longrightarrow> i \<le> l \<Longrightarrow> l \<le> n \<Longrightarrow> P (l - 1) False ts \<Longrightarrow>
    for_episodes env play stop_at_convergence exploration_decay check_convergence_every
      [l..n] ts = Some (Inr ts') \<Longrightarrow>
    \<exists>j b. l \<le> j \<and> j \<le> n \<and> P j b ts' \<and> (j < n \<longrightarrow> b)"
proof (induction k arbitrary: l ts)
  case 0
  then have eq: "l = n" by simp
  from "0.prems"(5) have "for_episodes env play stop_at_convergence exploration_decay
      check_convergence_every (n # []) ts = Some (Inr ts')"
    unfolding eq by simp
  from for_episodes_Cons_Inr [OF this] obtain b t1 where
    r: "run_episode env play stop_at_convergence exploration_decay check_convergence_every n ts =
          Some (Inr (b, t1))"
    and t: "ts' = t1"
    by (auto split: if_splits)
  from "0.prems"(2,4) r eq have "P n b t1"
    using step by blast
  with t eq show ?case by blast
next
  case (Suc k)
  then have lt: "l < n" by simp
  then have up: "[l..n] = l # [l + 1..n]"
    by (simp add: upto_rec1)
  from Suc.prems(5) have "for_episodes env play stop_at_convergence exploration_decay
      check_convergence_every (l # [l + 1..n]) ts = Some (Inr ts')"
    unfolding up .
  from for_episodes_Cons_Inr [OF this] obtain b t1 where
    r: "run_episode env play stop_at_convergence exploration_decay check_convergence_every l ts =
          Some (Inr (b, t1))"
    and rest: "if b then ts' = t1
               else for_episodes env play stop_at_convergence exploration_decay
                      check_convergence_every [l + 1..n] t1 = Some (Inr ts')"
    by blast
  from Suc.prems(2,3,4) r have Pl: "P l b t1"
    using step by blast
  show ?case
  proof (cases b)
    case True
    with rest Pl lt show ?thesis by auto
  next
    case False
    have k: "k = nat (n - (l + 1))"
      using Suc.prems(1) by simp
    from False rest have run': "for_episodes env play stop_at_convergence exploration_decay
                      check_convergence_every [l + 1..n] t1 = Some (Inr ts')"
      by simp
    from False Pl have init': "P (l + 1 - 1) False t1" by simp
    from Suc.IH [OF k _ _ init' run'] lt Suc.prems(2)
    obtain j b' where "l + 1 \<le> j" "j \<le> n" "P j b' ts'" "j < n \<longrightarrow> b'"
      by auto
    then show ?thesis
      by (intro exI [of _ j] exI [of _ b']) simp
  qed
qed

lemma run_episode_observe:
  assumes op: "\<forall>Q er s c ob Q' c' ob'. play Q er s c ob = Some (Inr (Q', c', ob')) \<longrightarrow>
      reset_calls ob' = reset_calls ob \<and> check_log ob' = check_log ob \<and>
      step_calls ob' + render_calls ob = Suc (step_calls ob + render_calls ob')"
    and run: "run_episode (observe env) play stop_at_convergence exploration_decay
                check_convergence_every j t = Some (Inr (b, t'))"
  shows "ts_episode t' = j \<and> check_convergence_every \<noteq> 0 \<and>
     reset_calls (ts_world t') = Suc (reset_calls (ts_world t)) \<and>
     step_calls (ts_world t') + render_calls (ts_world t) =
       Suc (step_calls (ts_world t) + render_calls (ts_world t')) \<and>
     length (ts_cumulative_reward_history t') = Suc (length (ts_cumulative_reward_history t)) \<and>
     (if j mod check_convergence_every = 0
      then \<exists>w_all win_rate.
             check_log (ts_world t') = check_log (ts_world t) @ [(w_all, win_rate)] \<and>
             ts_win_history t' = ts_win_history t @ [(j, win_rate)] \<and>
             b = (w_all \<and> stop_at_convergence)
      else check_log (ts_world t') = check_log (ts_world t) \<and>
           ts_win_history t' = ts_win_history t \<and> \<not> b)"
proof -
  from run_episode_Inr [OF run] obtain start_cell ob1 arr ob2 cumulative_reward ob3 where
    rc: "random_choice (observe env)
           (if ts_start_list t = [] then empty (observe env) else ts_start_list t)
           (ts_world t) = Inr (start_cell, ob1)"
    and rs: "reset (observe env) start_cell ob1 = (arr, ob2)"
    and pl: "play (ts_Q t) (ts_exploration_rate t) (flatten arr) (ts_cumulative_reward t) ob2 =
               Some (Inr (ts_Q t', cumulative_reward, ob3))"
    and nz: "check_convergence_every \<noteq> 0"
    and ep: "ts_episode t' = j"
    and hist: "ts_cumulative_reward_history t' = ts_cumulative_reward_history t @ [cumulative_reward]"
    and chk: "if j mod check_convergence_every = 0
       then ts_world t' = snd (check_win_all (observe env) (ts_Q t') ob3) \<and>
            ts_win_history t' =
              ts_win_history t @ [(j, snd (fst (check_win_all (observe env) (ts_Q t') ob3)))] \<and>
            b = (fst (fst (check_win_all (observe env) (ts_Q t') ob3)) \<and> stop_at_convergence)
       else ts_world t' = ob3 \<and> ts_win_history t' = ts_win_history t \<and> \<not> b"
    by blast
  from random_choice_observe [OF rc] have 1: "ob1 = (ts_world t)\<lparr>inner := inner ob1\<rparr>" .
  from rs have 2: "ob2 = ob1\<lparr>inner := inner ob2, reset_calls := Suc (reset_calls ob1)\<rparr>"
    by (auto simp: observe_fields(3))
  have t2: "reset_calls ob2 = Suc (reset_calls (ts_world t))" "check_log ob2 = check_log (ts_world t)"
    "step_calls ob2 = step_calls (ts_world t)" "render_calls ob2 = render_calls (ts_world t)"
    by (subst 2, subst 1, simp)+
  from op pl have "reset_calls ob3 = reset_calls ob2 \<and> check_log ob3 = check_log ob2 \<and>
      step_calls ob3 + render_calls ob2 = Suc (step_calls ob2 + render_calls ob3)"
    by blast
  with t2 have t3: "reset_calls ob3 = Suc (reset_calls (ts_world t))"
    "check_log ob3 = check_log (ts_world t)"
    "step_calls ob3 + render_calls (ts_world t) = Suc (step_calls (ts_world t) + render_calls ob3)"
    by simp_all
  show ?thesis
  proof (cases "j mod check_convergence_every = 0")
    case True
    obtain w_all win_rate where
      c: "fst (check_win_all env (ts_Q t') (inner ob3)) = (w_all, win_rate)"
      by (cases "fst (check_win_all env (ts_Q t') (inner ob3))")
    from True chk c have w: "ts_world t' =
        ob3\<lparr>inner := snd (check_win_all env (ts_Q t') (inner ob3)),
            check_log := check_log ob3 @ [(w_all, win_rate)]\<rparr>"
      and h: "ts_win_history t' = ts_win_history t @ [(j, win_rate)]"
      and b: "b = (w_all \<and> stop_at_convergence)"
      by (simp_all add: observe_fields(5))
    from w t3 have "reset_calls (ts_world t') = Suc (reset_calls (ts_world t))"
      "step_calls (ts_world t') + render_calls (ts_world t) =
         Suc (step_calls (ts_world t) + render_calls (ts_world t'))"
      "check_log (ts_world t') = check_log (ts_world t) @ [(w_all, win_rate)]"
      by simp_all
    with True ep nz hist h b show ?thesis
      by simp
  next
    case False
    with chk have "ts_world t' = ob3" "ts_win_history t' = ts_win_history t" "\<not> b"
      by simp_all
    with False t3 ep nz hist show ?thesis
      by simp
  qed
qed

lemma train_loop_Inr:
  assumes "train_loop env play stop_at_convergence kw Q w = Some (Inr (res, Q', w'))"
  shows "\<exists>ts'.
      for_episodes env play stop_at_convergence
        (kwargs_get (kw_exploration_decay kw) (995 / 1000))
        (kwargs_get (kw_check_convergence_every kw) default_check_convergence_every)
        [1..max (kwargs_get (kw_episodes kw) 1000) 1]
        \<lparr>ts_Q = Q, ts_cumulative_reward = 0, ts_cumulative_reward_history = [],
         ts_win_history = [], ts_start_list = [],
         ts_exploration_rate = kwargs_get (kw_exploration_rate kw) (10 / 100),
         ts_episode = 0, ts_world = w\<rparr> = Some (Inr ts') \<and>
      res = (ts_cumulative_reward_history ts', ts_win_history ts', ts_episode ts') \<and>
      Q' = ts_Q ts' \<and> w' = ts_world ts'"
proof -
  let ?r = "for_episodes env play stop_at_convergence
        (kwargs_get (kw_exploration_decay kw) (995 / 1000))
        (kwargs_get (kw_check_convergence_every kw) default_check_convergence_every)
        [1..max (kwargs_get (kw_episodes kw) 1000) 1]
        \<lparr>ts_Q = Q, ts_cumulative_reward = 0, ts_cumulative_reward_history = [],
         ts_win_history = [], ts_start_list = [],
         ts_exploration_rate = kwargs_get (kw_exploration_rate kw) (10 / 100),
         ts_episode = 0, ts_world = w\<rparr>"
  show ?thesis
  proof (cases ?r)
    case None
    with assms show ?thesis
      by (simp add: train_loop_def Let_def)
  next
    case (Some x)
    show ?thesis
    proof (cases x)
      case (Inl e)
      with Some assms show ?thesis
        by (simp add: train_loop_def Let_def)
    next
      case (Inr ts')
      with Some assms show ?thesis
        by (intro exI [of _ ts']) (simp add: train_loop_def Let_def)
    qed
  qed
qed



lemma filter_upto_last:
  assumes "1 \<le> (j::int)"
  shows "filter p [1..j] = filter p [1..j - 1] @ (if p j then [j] else [])"
  using assms by (simp add: upto_rec2)

lemma checks_step:
  assumes op: "\<forall>Q er s c ob Q' c' ob'. play Q er s c ob = Some (Inr (Q', c', ob')) \<longrightarrow>
      reset_calls ob' = reset_calls ob \<and> check_log ob' = check_log ob \<and>
      step_calls ob' + render_calls ob = Suc (step_calls ob + render_calls ob')"
    and j: "1 \<le> j"
    and p1: "map fst (ts_win_history t) = filter (\<lambda>e. e mod cce = 0) [1..j - 1]"
    and p2: "map snd (ts_win_history t) = map snd (check_log (ts_world t))"
    and p4: "stop_at_convergence \<longrightarrow> (\<forall>x \<in> set (check_log (ts_world t)). \<not> fst x)"
    and r: "run_episode (observe env) play stop_at_convergence ed cce j t = Some (Inr (b, t'))"
  shows "ts_episode t' = j"
    and "map fst (ts_win_history t') = filter (\<lambda>e. e mod cce = 0) [1..j]"
    and "map snd (ts_win_history t') = map snd (check_log (ts_world t'))"
    and "stop_at_convergence \<longrightarrow> (\<forall>x \<in> set (butlast (check_log (ts_world t'))). \<not> fst x)"
    and "stop_at_convergence \<and> \<not> b \<longrightarrow> (\<forall>x \<in> set (check_log (ts_world t')). \<not> fst x)"
    and "b \<longrightarrow> stop_at_convergence \<and> j mod cce = 0 \<and> check_log (ts_world t') \<noteq> [] \<and>
             fst (last (check_log (ts_world t')))"
proof -
  from run_episode_observe [OF op r] have ep: "ts_episode t' = j"
    and c: "if j mod cce = 0
      then \<exists>w_all win_rate.
           check_log (ts_world t') = check_log (ts_world t) @ [(w_all, win_rate)] \<and>
           ts_win_history t' = ts_win_history t @ [(j, win_rate)] \<and>
           b = (w_all \<and> stop_at_convergence)
      else check_log (ts_world t') = check_log (ts_world t) \<and>
           ts_win_history t' = ts_win_history t \<and> \<not> b"
    by simp_all
  show "ts_episode t' = j" by (rule ep)
  show "map fst (ts_win_history t') = filter (\<lambda>e. e mod cce = 0) [1..j]"
    using c p1 by (cases "j mod cce = 0") (auto simp: filter_upto_last [OF j])
  show "map snd (ts_win_history t') = map snd (check_log (ts_world t'))"
    using c p2 by (cases "j mod cce = 0") auto
  show "stop_at_convergence \<longrightarrow> (\<forall>x \<in> set (butlast (check_log (ts_world t'))). \<not> fst x)"
  proof (cases "j mod cce = 0")
    case True
    with c p4 show ?thesis by auto
  next
    case False
    with c have "check_log (ts_world t') = check_log (ts_world t)" by simp
    with p4 show ?thesis by (auto dest: in_set_butlastD)
  qed
  show "stop_at_convergence \<and> \<not> b \<longrightarrow> (\<forall>x \<in> set (check_log (ts_world t')). \<not> fst x)"
    using c p4 by (cases "j mod cce = 0") auto
  show "b \<longrightarrow> stop_at_convergence \<and> j mod cce = 0 \<and> check_log (ts_world t') \<noteq> [] \<and>
             fst (last (check_log (ts_world t')))"
    using c by (cases "j mod cce = 0") auto
qed

lemma for_episodes_checks:
  assumes op: "\<forall>Q er s c ob Q' c' ob'. play Q er s c ob = Some (Inr (Q', c', ob')) \<longrightarrow>
      reset_calls ob' = reset_calls ob \<and> check_log ob' = check_log ob \<and>
      step_calls ob' + render_calls ob = Suc (step_calls ob + render_calls ob')"
    and f: "for_episodes (observe env) play stop_at_convergence ed cce [1..n] ts = Some (Inr ts')"
    and n: "1 \<le> n"
    and i0: "ts_episode ts = 0"
    and i1: "ts_win_history ts = []" and i2: "check_log (ts_world ts) = []"
  shows "\<exists>b. 1 \<le> ts_episode ts' \<and> ts_episode ts' \<le> n \<and> (ts_episode ts' < n \<longrightarrow> b) \<and>
      map fst (ts_win_history ts') = filter (\<lambda>e. e mod cce = 0) [1..ts_episode ts'] \<and>
      map snd (ts_win_history ts') = map snd (check_log (ts_world ts')) \<and>
      (stop_at_convergence \<longrightarrow> (\<forall>x \<in> set (butlast (check_log (ts_world ts'))). \<not> fst x)) \<and>
      (stop_at_convergence \<and> \<not> b \<longrightarrow> (\<forall>x \<in> set (check_log (ts_world ts')). \<not> fst x)) \<and>
      (b \<longrightarrow> stop_at_convergence \<and> ts_episode ts' mod cce = 0 \<and>
             check_log (ts_world ts') \<noteq> [] \<and> fst (last (check_log (ts_world ts'))))"
proof -
  let ?P = "\<lambda>j b t. ts_episode t = j \<and>
      map fst (ts_win_history t) = filter (\<lambda>e. e mod cce = 0) [1..j] \<and>
      map snd (ts_win_history t) = map snd (check_log (ts_world t)) \<and>
      (stop_at_convergence \<longrightarrow> (\<forall>x \<in> set (butlast (check_log (ts_world t))). \<not> fst x)) \<and>
      (stop_at_convergence \<and> \<not> b \<longrightarrow> (\<forall>x \<in> set (check_log (ts_world t)). \<not> fst x)) \<and>
      (b \<longrightarrow> stop_at_convergence \<and> j mod cce = 0 \<and> check_log (ts_world t) \<noteq> [] \<and>
             fst (last (check_log (ts_world t))))"
  have step: "\<forall>j t b t'. 1 \<le> j \<and> j \<le> n \<and>
      (ts_episode t = j - 1 \<and>
       map fst (ts_win_history t) = filter (\<lambda>e. e mod cce = 0) [1..j - 1] \<and>
       map snd (ts_win_history t) = map snd (check_log (ts_world t)) \<and>
       (stop_at_convergence \<longrightarrow> (\<forall>x \<in> set (butlast (check_log (ts_world t))). \<not> fst x)) \<and>
       (stop_at_convergence \<and> \<not> False \<longrightarrow> (\<forall>x \<in> set (check_log (ts_world t)). \<not> fst x)) \<and>
       (False \<longrightarrow> stop_at_convergence \<and> (j - 1) mod cce = 0 \<and> check_log (ts_world t) \<noteq> [] \<and>
             fst (last (check_log (ts_world t))))) \<and>
      run_episode (observe env) play stop_at_convergence ed cce j t = Some (Inr (b, t')) \<longrightarrow>
      (ts_episode t' = j \<and>
       map fst (ts_win_history t') = filter (\<lambda>e. e mod cce = 0) [1..j] \<and>
       map snd (ts_win_history t') = map snd (check_log (ts_world t')) \<and>
       (stop_at_convergence \<longrightarrow> (\<forall>x \<in> set (butlast (check_log (ts_world t'))). \<not> fst x)) \<and>
       (stop_at_convergence \<and> \<not> b \<longrightarrow> (\<forall>x \<in> set (check_log (ts_world t')). \<not> fst x)) \<and>
       (b \<longrightarrow> stop_at_convergence \<and> j mod cce = 0 \<and> check_log (ts_world t') \<noteq> [] \<and>
             fst (last (check_log (ts_world t')))))"
  proof (intro allI impI)
    fix j t b t'
    assume a: "1 \<le> j \<and> j \<le> n \<and>
      (ts_episode t = j - 1 \<and>
       map fst (ts_win_history t) = filter (\<lambda>e. e mod cce = 0) [1..j - 1] \<and>
       map snd (ts_win_history t) = map snd (check_log (ts_world t)) \<and>
       (stop_at_convergence \<longrightarrow> (\<forall>x \<in> set (butlast (check_log (ts_world t))). \<not> fst x)) \<and>
       (stop_at_convergence \<and> \<not> False \<longrightarrow> (\<forall>x \<in> set (check_log (ts_world t)). \<not> fst x)) \<and>
       (False \<longrightarrow> stop_at_convergence \<and> (j - 1) mod cce = 0 \<and> check_log (ts_world t) \<noteq> [] \<and>
             fst (last (check_log (ts_world t))))) \<and>
      run_episode (observe env) play stop_at_convergence ed cce j t = Some (Inr (b, t'))"
    then have j: "1 \<le> j"
      and p1: "map fst (ts_win_history t) = filter (\<lambda>e. e mod cce = 0) [1..j - 1]"
      and p2: "map snd (ts_win_history t) = map snd (check_log (ts_world t))"
      and p4: "stop_at_convergence \<longrightarrow> (\<forall>x \<in> set (check_log (ts_world t)). \<not> fst x)"
      and r: "run_episode (observe env) play stop_at_convergence ed cce j t = Some (Inr (b, t'))"
      by simp_all
    from checks_step [OF op j p1 p2 p4 r]
    show "ts_episode t' = j \<and>
       map fst (ts_win_history t') = filter (\<lambda>e. e mod cce = 0) [1..j] \<and>
       map snd (ts_win_history t') = map snd (check_log (ts_world t')) \<and>
       (stop_at_convergence \<longrightarrow> (\<forall>x \<in> set (butlast (check_log (ts_world t'))). \<not> fst x)) \<and>
       (stop_at_convergence \<and> \<not> b \<longrightarrow> (\<forall>x \<in> set (check_log (ts_world t')). \<not> fst x)) \<and>
       (b \<longrightarrow> stop_at_convergence \<and> j mod cce = 0 \<and> check_log (ts_world t') \<noteq> [] \<and>
             fst (last (check_log (ts_world t'))))"
      by (intro conjI)
  qed
  have init: "?P (1 - 1) False ts"
    using i0 i1 i2 by simp
  have "\<exists>j b. 1 \<le> j \<and> j \<le> n \<and> ?P j b ts' \<and> (j < n \<longrightarrow> b)"
    by (rule for_episodes_upto [where P = ?P and i = 1 and l = 1, OF step refl order_refl n init f])
  then obtain j where "\<exists>b. 1 \<le> j \<and> j \<le> n \<and> ?P j b ts' \<and> (j < n \<longrightarrow> b)" ..
  then obtain b where jb: "1 \<le> j \<and> j \<le> n \<and> ?P j b ts' \<and> (j < n \<longrightarrow> b)" ..
  from jb have j1: "1 \<le> j" by (rule conjunct1)
  from jb have j2: "j \<le> n" by (rule conjunct2 [THEN conjunct1])
  from jb have P: "?P j b ts'" by (rule conjunct2 [THEN conjunct2, THEN conjunct1])
  from jb have brk: "j < n \<longrightarrow> b" by (rule conjunct2 [THEN conjunct2, THEN conjunct2])
  from P have e: "ts_episode ts' = j" by (rule conjunct1)
  from P have rest: "map fst (ts_win_history ts') = filter (\<lambda>e. e mod cce = 0) [1..j] \<and>
      map snd (ts_win_history ts') = map snd (check_log (ts_world ts')) \<and>
      (stop_at_convergence \<longrightarrow> (\<forall>x \<in> set (butlast (check_log (ts_world ts'))). \<not> fst x)) \<and>
      (stop_at_convergence \<and> \<not> b \<longrightarrow> (\<forall>x \<in> set (check_log (ts_world ts')). \<not> fst x)) \<and>
      (b \<longrightarrow> stop_at_convergence \<and> j mod cce = 0 \<and> check_log (ts_world ts') \<noteq> [] \<and>
             fst (last (check_log (ts_world ts'))))"
    by (rule conjunct2)
  show ?thesis
    unfolding e
    by (rule exI [of _ b], intro conjI j1 j2 brk rest [THEN conjunct1]
          rest [THEN conjunct2, THEN conjunct1]
          rest [THEN conjunct2, THEN conjunct2, THEN conjunct1]
          rest [THEN conjunct2, THEN conjunct2, THEN conjunct2, THEN conjunct1]
          rest [THEN conjunct2, THEN conjunct2, THEN conjunct2, THEN conjunct2])
qed

lemma train_loop_checks:
  assumes op: "\<forall>Q er s c ob Q' c' ob'. play Q er s c ob = Some (Inr (Q', c', ob')) \<longrightarrow>
      reset_calls ob' = reset_calls ob \<and> check_log ob' = check_log ob \<and>
      step_calls ob' + render_calls ob = Suc (step_calls ob + render_calls ob')"
    and run: "train_loop (observe env) play stop_at_convergence kw Q (unobserved w) =
                Some (Inr ((hist, wins, episode), Q', ob))"
  shows "map fst wins =
       filter (\<lambda>e. e mod kwargs_get (kw_check_convergence_every kw)
                            default_check_convergence_every = 0) [1..episode] \<and>
     map snd wins = map snd (check_log ob) \<and>
     (stop_at_convergence \<longrightarrow> (\<forall>x \<in> set (butlast (check_log ob)). \<not> fst x)) \<and>
     (episode < max (kwargs_get (kw_episodes kw) 1000) 1 \<longrightarrow>
        stop_at_convergence \<and> check_log ob \<noteq> [] \<and> fst (last (check_log ob))) \<and>
     (stop_at_convergence \<and> check_log ob \<noteq> [] \<and> fst (last (check_log ob)) \<longrightarrow>
        episode mod kwargs_get (kw_check_convergence_every kw)
                      default_check_convergence_every = 0 \<and>
        fst (last wins) = episode)"
proof -
  let ?n = "max (kwargs_get (kw_episodes kw) 1000) 1"
  let ?cce = "kwargs_get (kw_check_convergence_every kw) default_check_convergence_every"
  let ?ed = "kwargs_get (kw_exploration_decay kw) (995 / 1000)"
  let ?ts = "\<lparr>ts_Q = Q, ts_cumulative_reward = 0, ts_cumulative_reward_history = [],
         ts_win_history = [], ts_start_list = [],
         ts_exploration_rate = kwargs_get (kw_exploration_rate kw) (10 / 100),
         ts_episode = 0, ts_world = unobserved w\<rparr>"
  from train_loop_Inr [OF run] obtain ts' where
    f: "for_episodes (observe env) play stop_at_convergence ?ed ?cce [1..?n] ?ts = Some (Inr ts')"
    and res: "(hist, wins, episode) =
                (ts_cumulative_reward_history ts', ts_win_history ts', ts_episode ts')"
    and w: "ob = ts_world ts'"
    by blast
  from res w have eq: "ts_win_history ts' = wins" "ts_episode ts' = episode" "ts_world ts' = ob"
    by simp_all
  have n: "1 \<le> ?n" by simp
  have i: "ts_episode ?ts = 0" "ts_win_history ?ts = []" "check_log (ts_world ?ts) = []"
    by (simp_all add: unobserved_def)
  from for_episodes_checks [OF op f n i] obtain b where
    e1: "1 \<le> episode" and brk: "episode < ?n \<longrightarrow> b"
    and 1: "map fst wins = filter (\<lambda>e. e mod ?cce = 0) [1..episode]"
    and 2: "map snd wins = map snd (check_log ob)"
    and 3: "stop_at_convergence \<longrightarrow> (\<forall>x \<in> set (butlast (check_log ob)). \<not> fst x)"
    and 4: "stop_at_convergence \<and> \<not> b \<longrightarrow> (\<forall>x \<in> set (check_log ob). \<not> fst x)"
    and 5: "b \<longrightarrow> stop_at_convergence \<and> episode mod ?cce = 0 \<and> check_log ob \<noteq> [] \<and>
             fst (last (check_log ob))"
    unfolding eq by (elim exE conjE)
  from brk 5 have 6: "episode < ?n \<longrightarrow>
        stop_at_convergence \<and> check_log ob \<noteq> [] \<and> fst (last (check_log ob))"
    by simp
  have 7: "stop_at_convergence \<and> check_log ob \<noteq> [] \<and> fst (last (check_log ob)) \<longrightarrow>
        episode mod ?cce = 0 \<and> fst (last wins) = episode"
  proof (intro impI, elim conjE)
    assume s: stop_at_convergence and ne: "check_log ob \<noteq> []" and l: "fst (last (check_log ob))"
    from ne have "last (check_log ob) \<in> set (check_log ob)" by simp
    with 4 s l have b by blast
    with 5 have m: "episode mod ?cce = 0" by simp
    from 2 ne have wne: "wins \<noteq> []" by auto
    then have "fst (last wins) = last (map fst wins)"
      by (simp add: last_map)
    also have "\<dots> = episode"
      unfolding 1 using m by (simp add: filter_upto_last [OF e1])
    finally show "episode mod ?cce = 0 \<and> fst (last wins) = episode"
      using m by simp
  qed
  show ?thesis
    by (intro conjI 1 2 3 6 7)
qed

lemma train_loop_episodes:
  assumes run: "train_loop env play stop_at_convergence kw Q w =
                  Some (Inr ((hist, wins, episode), Q', w'))"
  shows "1 \<le> episode \<and> episode \<le> max (kwargs_get (kw_episodes kw) 1000) 1 \<and>
     length hist = nat episode"
proof -
  let ?n = "max (kwargs_get (kw_episodes kw) 1000) 1"
  let ?cce = "kwargs_get (kw_check_convergence_every kw) default_check_convergence_every"
  let ?ed = "kwargs_get (kw_exploration_decay kw) (995 / 1000)"
  let ?ts = "\<lparr>ts_Q = Q, ts_cumulative_reward = 0, ts_cumulative_reward_history = [],
         ts_win_history = [], ts_start_list = [],
         ts_exploration_rate = kwargs_get (kw_exploration_rate kw) (10 / 100),
         ts_episode = 0, ts_world = w\<rparr>"
  let ?P = "\<lambda>j (b::bool) t. ts_episode t = j \<and> length (ts_cumulative_reward_history t) = nat j"
  from train_loop_Inr [OF run] obtain ts' where
    f: "for_episodes env play stop_at_convergence ?ed ?cce [1..?n] ?ts = Some (Inr ts')"
    and res: "(hist, wins, episode) =
                (ts_cumulative_reward_history ts', ts_win_history ts', ts_episode ts')"
    by blast
  have step: "\<forall>j t b t'. 1 \<le> j \<and> j \<le> ?n \<and> ?P (j - 1) False t \<and>
      run_episode env play stop_at_convergence ?ed ?cce j t = Some (Inr (b, t')) \<longrightarrow>
      ?P j b t'"
  proof (intro allI impI, elim conjE)
    fix j t b t'
    assume j: "1 \<le> j"
      and p: "length (ts_cumulative_reward_history t) = nat (j - 1)"
      and r: "run_episode env play stop_at_convergence ?ed ?cce j t = Some (Inr (b, t'))"
    from j have s: "Suc (nat (j - 1)) = nat j" by simp
    from run_episode_Inr [OF r] obtain c where "ts_episode t' = j"
      "ts_cumulative_reward_history t' = ts_cumulative_reward_history t @ [c]"
      by blast
    with p s show "?P j b t'"
      by simp
  qed
  have init: "?P (1 - 1) False ?ts"
    by simp
  from for_episodes_upto [where P = ?P, OF step refl _ _ init f]
  obtain j b where "1 \<le> j" "j \<le> ?n" "?P j b ts'"
    by auto
  with res show ?thesis
    by simp
qed




section \<open>Runs of train in an environment with a step budget\<close>







section \<open>Calls of render_q (C7)\<close>




end
